theory Spec2Isabelle
  imports Main
begin

section \<open>Values\<close>

text \<open>
  The symbols of a base sequence are Python objects.  The model covers the atomic ones the
  class documentation names (numbers, letters, symbols) and the value \<open>None\<close>; what the code
  needs of them is equality and truthiness (\<open>x and y or z\<close> in \<open>get_value\<close>).
\<close>

datatype pyval = PNone | PInt int | PStr string

fun truthy :: "pyval \<Rightarrow> bool" where
  "truthy PNone = False"
| "truthy (PInt i) = (i \<noteq> 0)"
| "truthy (PStr s) = (s \<noteq> [])"

text \<open>
  \<open>get_value\<close> returns either the unique item of a cell or the cell (a list) itself, and the
  solver passes that result on to \<open>strip_value\<close> and \<open>set_value\<close>: an argument of these
  methods is an item or a list.
\<close>

datatype pyobj = Item pyval | Seq "pyval list"

datatype error = SudokuMatrixError | IndexError | AttributeError | ZeroDivisionError

section \<open>SudokuMatrixCell\<close>

datatype cell_class = SudokuMatrixCell | SudokuMatrixSolverCell

text \<open>
  A cell is a Python list (\<open>items\<close>: its current sequence of candidates) with attributes.
  \<open>cls\<close> is the class of the object, which decides what \<open>on_unique_value\<close> does.
\<close>

record cell =
  cls :: cell_class
  row :: int
  column :: int
  answer :: pyval
  base_sequence :: "pyval list"
  base_len :: nat
  solved :: bool
  items :: "pyval list"

text \<open>
  The cell's methods change the cell and may call the hook \<open>on_unique_value\<close>, whose effect
  is on the owner.  Each method returns the new cell and whether it called the hook.
\<close>

definition cell_get_value :: "cell \<Rightarrow> pyobj" where
  "cell_get_value c =
     (if length (items c) = 1 \<and> truthy (items c ! 0) then Item (items c ! 0)
      else Seq (items c))"

definition cell_set_value :: "pyobj \<Rightarrow> cell \<Rightarrow> error + cell \<times> bool" where
  "cell_set_value v c =
     (if \<not> solved c then
        (if v = Item PNone then Inr (c\<lparr>items := [PNone]\<rparr>, False)
         else case v of
           Item x \<Rightarrow>
             if x \<in> set (base_sequence c) then Inr (c\<lparr>items := [x]\<rparr>, True)
             else Inl SudokuMatrixError
         | Seq xs \<Rightarrow> Inl SudokuMatrixError)
      else Inr (c, False))"

definition cell_set_values :: "pyval list \<Rightarrow> cell \<Rightarrow> cell \<times> bool" where
  "cell_set_values vs c = (if \<not> solved c then (c\<lparr>items := vs\<rparr>, False) else (c, False))"

definition cell_strip_value :: "pyobj \<Rightarrow> cell \<Rightarrow> cell \<times> bool" where
  "cell_strip_value v c =
     (if \<not> solved c then
        (case v of
           Item x \<Rightarrow>
             if x \<in> set (items c)
             then (c\<lparr>items := remove1 x (items c)\<rparr>, length (remove1 x (items c)) = 1)
             else (c, False)
         | Seq xs \<Rightarrow> (c, False))
      else (c, False))"

text \<open>
  The keyword arguments of \<open>reset\<close>: \<open>None\<close> is an absent keyword, and \<open>kw_answer = Some PNone\<close>
  is \<open>answer=None\<close>.
\<close>

record reset_kw =
  kw_row :: "int option"
  kw_column :: "int option"
  kw_answer :: "pyval option"
  kw_base_sequence :: "pyval list option"

definition no_kw :: reset_kw where
  "no_kw = \<lparr>kw_row = None, kw_column = None, kw_answer = None, kw_base_sequence = None\<rparr>"

text \<open>The setter of the property \<open>answer\<close>.\<close>

definition cell_set_answer :: "pyval \<Rightarrow> cell \<Rightarrow> error + cell" where
  "cell_set_answer a c =
     (if a = PNone \<or> a \<in> set (base_sequence c) then Inr (c\<lparr>answer := a\<rparr>)
      else Inl SudokuMatrixError)"

definition cell_reset :: "reset_kw \<Rightarrow> cell \<Rightarrow> error + cell" where
  "cell_reset kw c =
     (let c1 = c\<lparr>row := (case kw_row kw of Some x \<Rightarrow> if x \<noteq> 0 then x else row c | None \<Rightarrow> row c),
                 column := (case kw_column kw of Some x \<Rightarrow> if x \<noteq> 0 then x else column c
                            | None \<Rightarrow> column c)\<rparr>
      in case cell_set_answer (case kw_answer kw of Some x \<Rightarrow> x | None \<Rightarrow> answer c1) c1 of
           Inl e \<Rightarrow> Inl e
         | Inr c2 \<Rightarrow>
             (let bs = (case kw_base_sequence kw of
                          Some xs \<Rightarrow> if xs \<noteq> [] then xs else base_sequence c2
                        | None \<Rightarrow> base_sequence c2);
                  c3 = c2\<lparr>base_sequence := bs, base_len := length bs, solved := False\<rparr>
              in Inr (fst (cell_set_values bs c3))))"

text \<open>The constructor: default attribute values, then \<open>reset\<close> with the keywords.\<close>

definition new_cell :: "cell_class \<Rightarrow> reset_kw \<Rightarrow> error + cell" where
  "new_cell k kw =
     cell_reset kw
       \<lparr>cls = k, row = 0, column = 0, answer = PNone, base_sequence = map PInt [1..9],
        base_len = 9, solved = False, items = []\<rparr>"

text \<open>The three mutating methods, as one operation, to speak about all of them at once.\<close>

datatype mutation = SetValue pyobj | SetValues "pyval list" | StripValue pyobj

fun mutate :: "mutation \<Rightarrow> cell \<Rightarrow> error + cell \<times> bool" where
  "mutate (SetValue v) c = cell_set_value v c"
| "mutate (SetValues vs) c = Inr (cell_set_values vs c)"
| "mutate (StripValue v) c = Inr (cell_strip_value v c)"

text \<open>A cell of the default 1..9 grid, as the constructor leaves it.\<close>

definition fresh9 :: cell where
  "fresh9 = \<lparr>cls = SudokuMatrixCell, row = 0, column = 0, answer = PNone,
             base_sequence = map PInt [1..9], base_len = 9, solved = False,
             items = map PInt [1..9]\<rparr>"

section \<open>Matrix and SudokuMatrix\<close>

datatype matrix_class = SudokuMatrix | SudokuMatrixSolver

text \<open>
  A matrix is a Python list of cell objects with attributes.  A cell object is identified
  by its position in that list (\<open>reset_contents\<close> creates one object per position), so a
  list or set of cells is a list of positions; \<open>cleanups\<close>, a Python set of cells, is a list
  of positions without repetition.  \<open>mclass\<close> is the class of the matrix object.
\<close>

record matrix =
  mclass :: matrix_class
  cells :: "cell list"
  rows :: nat
  columns :: nat
  matrix_base_sequence :: "pyval list"
  matrix_base_len :: nat
  box_size :: nat
  chutes :: nat
  cleanups :: "nat list"
  step :: int

definition ids :: "matrix \<Rightarrow> nat list" where
  "ids m = [0..<length (cells m)]"

text \<open>Python's \<open>xs[a:b]\<close> and \<open>xs[a::k]\<close> for indices that are not negative.\<close>

definition py_slice :: "nat \<Rightarrow> nat \<Rightarrow> 'a list \<Rightarrow> 'a list" where
  "py_slice a b xs = take (b - a) (drop a xs)"

definition py_slice_step :: "nat \<Rightarrow> nat \<Rightarrow> 'a list \<Rightarrow> 'a list" where
  "py_slice_step a k xs = map (\<lambda>j. xs ! (a + j * k)) [0..<(length xs + k - 1 - a) div k]"

definition ensure_inbounds :: "matrix \<Rightarrow> int \<Rightarrow> int \<Rightarrow> error + unit" where
  "ensure_inbounds m r c =
     (if \<not> (0 \<le> r \<and> r < int (rows m) \<and> 0 \<le> c \<and> c < int (columns m)) then Inl IndexError
      else Inr ())"

definition at :: "matrix \<Rightarrow> int \<Rightarrow> int \<Rightarrow> error + nat" where
  "at m r c =
     (case ensure_inbounds m r c of
        Inl e \<Rightarrow> Inl e
      | Inr u \<Rightarrow>
          if nat r * columns m + nat c < length (cells m) then Inr (nat r * columns m + nat c)
          else Inl IndexError)"

definition get_column_cells :: "matrix \<Rightarrow> int \<Rightarrow> error + nat list" where
  "get_column_cells m c =
     (case ensure_inbounds m 0 c of
        Inl e \<Rightarrow> Inl e
      | Inr u \<Rightarrow> Inr (py_slice_step (nat c) (columns m) (ids m)))"

definition get_row_cells :: "matrix \<Rightarrow> int \<Rightarrow> error + nat list" where
  "get_row_cells m r =
     (case ensure_inbounds m r 0 of
        Inl e \<Rightarrow> Inl e
      | Inr u \<Rightarrow> Inr (py_slice (nat r * columns m) ((nat r + 1) * columns m) (ids m)))"

definition get_box_cells :: "matrix \<Rightarrow> int \<Rightarrow> int \<Rightarrow> error + nat list" where
  "get_box_cells m r c =
     (case ensure_inbounds m r c of
        Inl e \<Rightarrow> Inl e
      | Inr u \<Rightarrow>
          if box_size m = 0 then Inl ZeroDivisionError
          else
            (let bs = box_size m;
                 row0 = bs * (nat r div bs);
                 column0 = bs * (nat c div bs)
             in Inr (concat (map (\<lambda>rw. py_slice (rw * columns m + column0)
                                            (rw * columns m + column0 + bs) (ids m))
                               [row0..<row0 + bs]))))"

text \<open>
  \<open>get_unit_cells\<close> builds a Python set of cells.  The cells hash by \<open>id\<close>, so the set holds
  every cell object once: the list of positions with repetitions removed.  The order in
  which Python iterates over the set is not specified; the model iterates in list order.
\<close>

definition get_unit_cells :: "matrix \<Rightarrow> int \<Rightarrow> int \<Rightarrow> error + nat list" where
  "get_unit_cells m r c =
     (case get_row_cells m r of
        Inl e \<Rightarrow> Inl e
      | Inr rw \<Rightarrow>
          (case get_column_cells m c of
             Inl e \<Rightarrow> Inl e
           | Inr cl \<Rightarrow>
               (case get_box_cells m r c of
                  Inl e \<Rightarrow> Inl e
                | Inr bx \<Rightarrow> Inr (remdups (rw @ cl @ bx)))))"

text \<open>
  \<open>on_unique_value\<close> does nothing in \<open>SudokuMatrixCell\<close>.  In \<open>SudokuMatrixSolverCell\<close> it
  calls \<open>self.owner.register_for_cleanups(self)\<close> and swallows every exception: an owner
  that is no solver has no such method.
\<close>

definition register_for_cleanups :: "nat \<Rightarrow> matrix \<Rightarrow> matrix" where
  "register_for_cleanups i m = m\<lparr>cleanups := List.insert i (cleanups m)\<rparr>"

definition on_unique_value :: "nat \<Rightarrow> matrix \<Rightarrow> matrix" where
  "on_unique_value i m =
     (case cls (cells m ! i) of
        SudokuMatrixCell \<Rightarrow> m
      | SudokuMatrixSolverCell \<Rightarrow>
          (case mclass m of
             SudokuMatrixSolver \<Rightarrow> register_for_cleanups i m
           | SudokuMatrix \<Rightarrow> m))"

text \<open>
  A method call on the cell at position \<open>i\<close>: the changed cell takes its place in the matrix,
  and the hook runs if the method called it.
\<close>

definition store :: "nat \<Rightarrow> cell \<times> bool \<Rightarrow> matrix \<Rightarrow> matrix" where
  "store i cf m =
     (let m' = m\<lparr>cells := (cells m)[i := fst cf]\<rparr>
      in if snd cf then on_unique_value i m' else m')"

definition strip_cell :: "pyobj \<Rightarrow> nat \<Rightarrow> matrix \<Rightarrow> matrix" where
  "strip_cell v i m = store i (cell_strip_value v (cells m ! i)) m"

definition set_cell_value :: "pyobj \<Rightarrow> nat \<Rightarrow> matrix \<Rightarrow> error + matrix" where
  "set_cell_value v i m =
     (case cell_set_value v (cells m ! i) of
        Inl e \<Rightarrow> Inl e
      | Inr cf \<Rightarrow> Inr (store i cf m))"

definition reset_cell :: "nat \<Rightarrow> matrix \<Rightarrow> error + matrix" where
  "reset_cell i m =
     (case cell_reset no_kw (cells m ! i) of
        Inl e \<Rightarrow> Inl e
      | Inr c \<Rightarrow> Inr (m\<lparr>cells := (cells m)[i := c]\<rparr>))"

definition set_cell_answer :: "pyval \<Rightarrow> nat \<Rightarrow> matrix \<Rightarrow> error + matrix" where
  "set_cell_answer a i m =
     (case cell_set_answer a (cells m ! i) of
        Inl e \<Rightarrow> Inl e
      | Inr c \<Rightarrow> Inr (m\<lparr>cells := (cells m)[i := c]\<rparr>))"

text \<open>\<open>SudokuMatrix.strip_value\<close>: the spec's \<open>commitValue\<close>.\<close>

definition strip_value :: "pyobj \<Rightarrow> int \<Rightarrow> int \<Rightarrow> matrix \<Rightarrow> error + matrix" where
  "strip_value v r c m =
     (case get_unit_cells m r c of
        Inl e \<Rightarrow> Inl e
      | Inr u \<Rightarrow>
          (let m1 = fold (strip_cell v) u m
           in case at m1 r c of
                Inl e \<Rightarrow> Inl e
              | Inr t \<Rightarrow> set_cell_value v t m1))"

subsection \<open>Construction\<close>

text \<open>
  \<open>reset_matrix\<close> takes \<open>math.sqrt\<close> of the length of the base sequence and compares the
  float with its integer part.  For every length a list can have (below \<open>2^52\<close>) the float is
  an integer exactly when the length is a perfect square; the model computes the integer
  square root.
\<close>

fun sqrt_search :: "nat \<Rightarrow> nat \<Rightarrow> nat" where
  "sqrt_search n 0 = 0"
| "sqrt_search n (Suc b) = (if Suc b * Suc b \<le> n then Suc b else sqrt_search n b)"

definition floor_sqrt :: "nat \<Rightarrow> nat" where
  "floor_sqrt n = sqrt_search n n"

record matrix_kw =
  kw_matrix_base_sequence :: "pyval list option"
  kw_values :: "pyval list option"
  kw_answer_list :: "pyval list option"

definition cell_class_of :: "matrix_class \<Rightarrow> cell_class" where
  "cell_class_of k = (case k of SudokuMatrix \<Rightarrow> SudokuMatrixCell | SudokuMatrixSolver \<Rightarrow> SudokuMatrixSolverCell)"

definition fill_with :: "matrix \<Rightarrow> nat \<Rightarrow> nat \<Rightarrow> error + cell" where
  "fill_with m r c =
     new_cell (cell_class_of (mclass m))
       \<lparr>kw_row = Some (int r), kw_column = Some (int c), kw_answer = None,
        kw_base_sequence = Some (matrix_base_sequence m)\<rparr>"

text \<open>A list of results in evaluation order: the first exception ends the evaluation.\<close>

fun collect :: "(error + 'a) list \<Rightarrow> error + 'a list" where
  "collect [] = Inr []"
| "collect (x # xs) =
     (case x of
        Inl e \<Rightarrow> Inl e
      | Inr y \<Rightarrow> (case collect xs of Inl e \<Rightarrow> Inl e | Inr ys \<Rightarrow> Inr (y # ys)))"

definition reset_contents :: "matrix \<Rightarrow> error + matrix" where
  "reset_contents m =
     (case collect (concat (map (\<lambda>r. map (\<lambda>c. fill_with m r c) [0..<columns m]) [0..<rows m])) of
        Inl e \<Rightarrow> Inl e
      | Inr cs \<Rightarrow> Inr (m\<lparr>cells := cs\<rparr>))"

fun set_value_each :: "(nat \<times> pyval) list \<Rightarrow> matrix \<Rightarrow> error + matrix" where
  "set_value_each [] m = Inr m"
| "set_value_each (p # ps) m =
     (case set_cell_value (Item (snd p)) (fst p) m of
        Inl e \<Rightarrow> Inl e
      | Inr m' \<Rightarrow> set_value_each ps m')"

definition reset_values :: "pyval list option \<Rightarrow> matrix \<Rightarrow> error + matrix" where
  "reset_values vals m =
     (case vals of
        None \<Rightarrow> Inr m
      | Some vs \<Rightarrow>
          if vs = [] then Inr m
          else set_value_each (zip (py_slice 0 (min (length vs) (length (cells m))) (ids m)) vs) m)"

fun set_answer_each :: "(nat \<times> pyval) list \<Rightarrow> matrix \<Rightarrow> error + matrix" where
  "set_answer_each [] m = Inr m"
| "set_answer_each (p # ps) m =
     (case set_cell_answer (snd p) (fst p) m of
        Inl e \<Rightarrow> Inl e
      | Inr m' \<Rightarrow> set_answer_each ps m')"

definition set_answer_values :: "pyval list option \<Rightarrow> matrix \<Rightarrow> error + matrix" where
  "set_answer_values answers m =
     (case answers of
        None \<Rightarrow> Inr m
      | Some vs \<Rightarrow>
          if vs = [] then Inr m
          else set_answer_each (zip (py_slice 0 (min (length vs) (length (cells m))) (ids m)) vs) m)"

text \<open>
  \<open>reset_matrix\<close>; the solver's override empties \<open>cleanups\<close> first.  An absent or empty
  \<open>base_sequence\<close> keyword leaves the current base sequence in place (\<open>x or y\<close>).
\<close>

definition reset_matrix :: "matrix_kw \<Rightarrow> matrix \<Rightarrow> error + matrix" where
  "reset_matrix kw m0 =
     (let m = (case mclass m0 of SudokuMatrixSolver \<Rightarrow> m0\<lparr>cleanups := []\<rparr> | SudokuMatrix \<Rightarrow> m0);
          bs = (case kw_matrix_base_sequence kw of
                  Some xs \<Rightarrow> if xs \<noteq> [] then xs else matrix_base_sequence m
                | None \<Rightarrow> matrix_base_sequence m);
          m1 = m\<lparr>matrix_base_sequence := bs, matrix_base_len := length bs\<rparr>
      in if length bs = 0 then Inl SudokuMatrixError
         else if floor_sqrt (length bs) * floor_sqrt (length bs) \<noteq> length bs then Inl SudokuMatrixError
         else
           (let m2 = m1\<lparr>box_size := floor_sqrt (length bs),
                         chutes := length bs div floor_sqrt (length bs),
                         rows := length bs, columns := length bs\<rparr>
            in case reset_contents m2 of
                 Inl e \<Rightarrow> Inl e
               | Inr m3 \<Rightarrow>
                   (case reset_values (kw_values kw) m3 of
                      Inl e \<Rightarrow> Inl e
                    | Inr m4 \<Rightarrow> set_answer_values (kw_answer_list kw) m4)))"

text \<open>
  The constructors \<open>SudokuMatrix(**kw)\<close> and \<open>SudokuMatrixSolver(**kw)\<close>: an empty matrix with
  the default base sequence 1..9, then \<open>reset_matrix\<close>.
\<close>

definition new_matrix :: "matrix_class \<Rightarrow> matrix_kw \<Rightarrow> error + matrix" where
  "new_matrix k kw =
     reset_matrix kw
       \<lparr>mclass = k, cells = [], rows = 0, columns = 0, matrix_base_sequence = map PInt [1..9],
        matrix_base_len = 9, box_size = 0, chutes = 0, cleanups = [], step = 0\<rparr>"

section \<open>SudokuMatrixSolver\<close>

definition do_finished :: "matrix \<Rightarrow> bool" where
  "do_finished m = list_all solved (cells m)"

subsection \<open>Step 1\<close>

fun step_1_each :: "nat list \<Rightarrow> matrix \<Rightarrow> error + matrix" where
  "step_1_each [] m = Inr m"
| "step_1_each (i # js) m =
     (if length (items (cells m ! i)) \<noteq> 1 then
        (case reset_cell i m of
           Inl e \<Rightarrow> Inl e
         | Inr m' \<Rightarrow> step_1_each js m')
      else if \<not> solved (cells m ! i) then step_1_each js (register_for_cleanups i m)
      else step_1_each js m)"

definition do_step_1 :: "matrix \<Rightarrow> error + matrix" where
  "do_step_1 m =
     (case step_1_each (ids m) m of
        Inl e \<Rightarrow> Inl e
      | Inr m' \<Rightarrow> Inr (m'\<lparr>step := step m' + 1\<rparr>))"

subsection \<open>Step 2\<close>

text \<open>
  \<open>self.cleanups.pop()\<close> removes and returns an arbitrary element of the set.  Which one is
  not specified; the model takes the choice as a parameter \<open>pop\<close>, a function of the list
  that stands for the set, and every statement about the solver holds for every \<open>pop\<close>.
\<close>

definition popped :: "(nat list \<Rightarrow> nat) \<Rightarrow> nat list \<Rightarrow> nat" where
  "popped pop xs = xs ! (pop xs mod length xs)"

text \<open>One round of the \<open>while\<close> loop of \<open>do_step_2\<close>, for a set of cleanups that is not empty.\<close>

definition step_2_body :: "(nat list \<Rightarrow> nat) \<Rightarrow> matrix \<Rightarrow> error + matrix" where
  "step_2_body pop m =
     (let i = popped pop (cleanups m);
          m1 = m\<lparr>cleanups := removeAll i (cleanups m)\<rparr>
      in if length (items (cells m1 ! i)) = 1 then
           (let m2 = m1\<lparr>cells := (cells m1)[i := (cells m1 ! i)\<lparr>solved := True\<rparr>]\<rparr>
            in strip_value (cell_get_value (cells m2 ! i)) (row (cells m2 ! i))
                 (column (cells m2 ! i)) m2)
         else Inr m1)"

subsection \<open>Step 3\<close>

definition get_similar_cells :: "matrix \<Rightarrow> nat \<Rightarrow> nat list \<Rightarrow> nat list" where
  "get_similar_cells m i js = filter (\<lambda>j. items (cells m ! j) = items (cells m ! i) \<and> j \<noteq> i) js"

text \<open>
  \<open>_c not in _sims\<close> on a tuple of cells: no element is the object \<open>_c\<close> or equal to it as a
  list.
\<close>

definition not_in_sims :: "matrix \<Rightarrow> nat \<Rightarrow> nat list \<Rightarrow> bool" where
  "not_in_sims m j sims = (\<not> list_ex (\<lambda>s. s = j \<or> items (cells m ! s) = items (cells m ! j)) sims)"

definition strip_all_of :: "nat \<Rightarrow> nat \<Rightarrow> matrix \<Rightarrow> matrix" where
  "strip_all_of i j m = fold (\<lambda>v. strip_cell (Item v) j) (items (cells m ! i)) m"

definition step_3_lookup :: "nat \<Rightarrow> nat list \<Rightarrow> matrix \<Rightarrow> matrix" where
  "step_3_lookup i js m =
     (let sims = get_similar_cells m i js
      in if sims \<noteq> [] then
           fold (\<lambda>j m'. if not_in_sims m' j (sims @ [i]) then strip_all_of i j m' else m') js m
         else m)"

definition step_3_cell :: "nat \<Rightarrow> matrix \<Rightarrow> error + matrix" where
  "step_3_cell i m =
     (case get_row_cells m (row (cells m ! i)) of
        Inl e \<Rightarrow> Inl e
      | Inr rw \<Rightarrow>
          (let m1 = step_3_lookup i rw m
           in case get_column_cells m1 (column (cells m1 ! i)) of
                Inl e \<Rightarrow> Inl e
              | Inr cl \<Rightarrow>
                  (let m2 = step_3_lookup i cl m1
                   in case get_box_cells m2 (row (cells m2 ! i)) (column (cells m2 ! i)) of
                        Inl e \<Rightarrow> Inl e
                      | Inr bx \<Rightarrow> Inr (step_3_lookup i bx m2))))"

fun step_3_each :: "nat list \<Rightarrow> matrix \<Rightarrow> error + matrix" where
  "step_3_each [] m = Inr m"
| "step_3_each (i # js) m =
     (if length (items (cells m ! i)) = 1 then step_3_each js m
      else if length (items (cells m ! i)) \<le> box_size m then
        (case step_3_cell i m of
           Inl e \<Rightarrow> Inl e
         | Inr m' \<Rightarrow> step_3_each js m')
      else Inr m)"

text \<open>\<open>sorted(self, key=len)\<close>: the cells by their number of items, a stable sort.\<close>

definition sorted_cells :: "matrix \<Rightarrow> nat list" where
  "sorted_cells m = sort_key (\<lambda>i. length (items (cells m ! i))) (ids m)"

definition do_step_3 :: "matrix \<Rightarrow> error + matrix" where
  "do_step_3 m =
     (case step_3_each (sorted_cells m) m of
        Inl e \<Rightarrow> Inl e
      | Inr m' \<Rightarrow>
          if cleanups m' \<noteq> [] then Inr (m'\<lparr>step := step m' - 1\<rparr>)
          else Inr (m'\<lparr>step := step m' + 1\<rparr>))"

subsection \<open>What the steps change\<close>

text \<open>
  The quantities by which the loops of the solver end: the number of cells that are not
  solved, the number of registered cleanups that stand for a solved cell, and the number of
  items in all cells.
\<close>

definition unsolved :: "matrix \<Rightarrow> nat" where
  "unsolved m = length (filter (\<lambda>c. \<not> solved c) (cells m))"

definition pending :: "matrix \<Rightarrow> nat \<Rightarrow> bool" where
  "pending m i \<longleftrightarrow> i < length (cells m) \<and> \<not> solved (cells m ! i)"

definition stale :: "matrix \<Rightarrow> nat" where
  "stale m = length (filter (\<lambda>i. \<not> pending m i) (cleanups m))"

definition total_items :: "matrix \<Rightarrow> nat" where
  "total_items m = sum_list (map (\<lambda>c. length (items c)) (cells m))"

text \<open>
  \<open>keeps m m'\<close>: from \<open>m\<close> to \<open>m'\<close> only the items of cells changed, and cells that were not
  solved were added to the cleanups.  \<open>shrinks m m'\<close>: moreover no cell gained an item, and
  one lost an item if a cell was added to the cleanups.
\<close>

definition blank :: "cell \<Rightarrow> cell" where
  "blank c = c\<lparr>items := []\<rparr>"

definition keeps :: "matrix \<Rightarrow> matrix \<Rightarrow> bool" where
  "keeps m m' \<longleftrightarrow>
     m' = m\<lparr>cells := cells m', cleanups := cleanups m'\<rparr>
     \<and> map blank (cells m') = map blank (cells m)
     \<and> (\<exists>ys. cleanups m' = ys @ cleanups m \<and> list_all (pending m) ys)"

definition shrinks :: "matrix \<Rightarrow> matrix \<Rightarrow> bool" where
  "shrinks m m' \<longleftrightarrow>
     keeps m m' \<and> total_items m' \<le> total_items m
     \<and> (cleanups m' = cleanups m \<or> total_items m' < total_items m)"

subsection \<open>Positions returned by the lookups\<close>

lemma py_slice_subset: "set (py_slice a b xs) \<subseteq> set xs"
  unfolding py_slice_def by (meson set_take_subset set_drop_subset subset_trans)

lemma py_slice_step_valid:
  assumes "i \<in> set (py_slice_step a k [0..<n])"
  shows "i < n"
proof -
  from assms obtain j where j: "j < (n + k - 1 - a) div k" and i: "i = [0..<n] ! (a + j * k)"
    by (auto simp add: py_slice_step_def)
  have k: "0 < k" using j by (cases k) simp_all
  from j have "Suc j \<le> (n + k - 1 - a) div k" by simp
  then have "Suc j * k \<le> (n + k - 1 - a) div k * k" by (rule mult_le_mono1)
  also have "\<dots> \<le> n + k - 1 - a" by simp
  finally have "j * k + k \<le> n + k - 1 - a" by simp
  with k have "a + j * k < n" by linarith
  with i show ?thesis by simp
qed

lemma get_row_cells_valid:
  "get_row_cells m r = Inr u \<Longrightarrow> i \<in> set u \<Longrightarrow> i < length (cells m)"
  using py_slice_subset [of "nat r * columns m" "(nat r + 1) * columns m" "ids m"]
  by (auto simp add: get_row_cells_def ids_def split: sum.splits)

lemma get_column_cells_valid:
  "get_column_cells m c = Inr u \<Longrightarrow> i \<in> set u \<Longrightarrow> i < length (cells m)"
  by (auto simp add: get_column_cells_def ids_def split: sum.splits dest: py_slice_step_valid)

lemma get_box_cells_valid:
  "get_box_cells m r c = Inr u \<Longrightarrow> i \<in> set u \<Longrightarrow> i < length (cells m)"
proof -
  assume u: "get_box_cells m r c = Inr u" and i: "i \<in> set u"
  from u i obtain a b where "i \<in> set (py_slice a b (ids m))"
    by (auto simp add: get_box_cells_def Let_def split: sum.splits if_splits)
  with py_slice_subset [of a b "ids m"] show ?thesis by (auto simp add: ids_def)
qed

lemma get_unit_cells_valid:
  "get_unit_cells m r c = Inr u \<Longrightarrow> i \<in> set u \<Longrightarrow> i < length (cells m)"
  by (auto simp add: get_unit_cells_def split: sum.splits
      dest: get_row_cells_valid get_column_cells_valid get_box_cells_valid)

lemma at_valid: "at m r c = Inr t \<Longrightarrow> t < length (cells m)"
  by (auto simp add: at_def split: sum.splits if_splits)

subsection \<open>Steps that keep the solved cells\<close>

lemma keeps_refl: "keeps m m"
  by (simp add: keeps_def)

lemma keeps_length: "keeps m m' \<Longrightarrow> length (cells m') = length (cells m)"
  unfolding keeps_def by (metis length_map)

lemma keeps_blank: "keeps m m' \<Longrightarrow> i < length (cells m) \<Longrightarrow> blank (cells m' ! i) = blank (cells m ! i)"
proof -
  assume k: "keeps m m'" and i: "i < length (cells m)"
  from k have e: "map blank (cells m') = map blank (cells m)" by (simp add: keeps_def)
  from i keeps_length [OF k] have "map blank (cells m') ! i = blank (cells m' ! i)" by simp
  moreover from i have "map blank (cells m) ! i = blank (cells m ! i)" by simp
  ultimately show ?thesis using e by simp
qed

lemma blank_solved: "blank c' = blank c \<Longrightarrow> solved c' = solved c"
  unfolding blank_def by (metis cell.select_convs(7) cell.surjective cell.update_convs(8))

lemma keeps_solved: "keeps m m' \<Longrightarrow> i < length (cells m) \<Longrightarrow> solved (cells m' ! i) = solved (cells m ! i)"
  by (rule blank_solved) (rule keeps_blank)

lemma keeps_pending: "keeps m m' \<Longrightarrow> pending m' i = pending m i"
  by (auto simp add: pending_def keeps_length keeps_solved)

lemma keeps_map_solved: "keeps m m' \<Longrightarrow> map solved (cells m') = map solved (cells m)"
  by (rule nth_equalityI) (simp_all add: keeps_length keeps_solved)

lemma keeps_unsolved: "keeps m m' \<Longrightarrow> unsolved m' = unsolved m"
proof -
  assume k: "keeps m m'"
  have "length (filter (\<lambda>c. \<not> solved c) xs) = length (filter Not (map solved xs))" for xs
    by (induction xs) simp_all
  then have "unsolved n = length (filter Not (map solved (cells n)))" for n
    by (simp only: unsolved_def)
  then show ?thesis by (simp only: keeps_map_solved [OF k])
qed

lemma keeps_stale: "keeps m m' \<Longrightarrow> stale m' = stale m"
proof -
  assume k: "keeps m m'"
  then obtain ys where ys: "cleanups m' = ys @ cleanups m" "list_all (pending m) ys"
    by (auto simp add: keeps_def)
  have p: "pending m' = pending m" using keeps_pending [OF k] by (rule ext)
  from ys(2) have "filter (\<lambda>i. \<not> pending m i) ys = []" by (simp add: list_all_iff)
  with ys(1) p show ?thesis by (simp add: stale_def)
qed

lemma keeps_trans: "keeps m m' \<Longrightarrow> keeps m' m'' \<Longrightarrow> keeps m m''"
proof -
  assume a: "keeps m m'" and b: "keeps m' m''"
  from a obtain ys where ys: "cleanups m' = ys @ cleanups m" "list_all (pending m) ys"
    by (auto simp add: keeps_def)
  from b obtain zs where zs: "cleanups m'' = zs @ cleanups m'" "list_all (pending m') zs"
    by (auto simp add: keeps_def)
  have p: "pending m' = pending m" using keeps_pending [OF a] by (rule ext)
  from ys zs p have c: "cleanups m'' = (zs @ ys) @ cleanups m \<and> list_all (pending m) (zs @ ys)" by simp
  from a have 1: "m' = m\<lparr>cells := cells m', cleanups := cleanups m'\<rparr>" by (simp add: keeps_def)
  from b have 2: "m'' = m'\<lparr>cells := cells m'', cleanups := cleanups m''\<rparr>" by (simp add: keeps_def)
  have 3: "m'' = m\<lparr>cells := cells m'', cleanups := cleanups m''\<rparr>"
    by (subst 2, subst 1) simp
  from a b have 4: "map blank (cells m'') = map blank (cells m)" by (simp add: keeps_def)
  from 3 4 c show ?thesis unfolding keeps_def by blast
qed

lemma shrinks_refl: "shrinks m m"
  by (simp add: shrinks_def keeps_refl)

lemma shrinks_trans: "shrinks m m' \<Longrightarrow> shrinks m' m'' \<Longrightarrow> shrinks m m''"
  unfolding shrinks_def using keeps_trans by (metis le_trans order_le_less_trans order_less_le_trans)

lemma shrinks_keeps: "shrinks m m' \<Longrightarrow> keeps m m'"
  by (simp add: shrinks_def)

lemma blank_items_update: "blank (c\<lparr>items := xs\<rparr>) = blank c"
  by (simp add: blank_def)

lemma map_blank_update:
  "blank c' = blank (xs ! i) \<Longrightarrow> map blank (xs[i := c']) = map blank xs"
  by (simp add: map_update) (metis list_update_id nth_map list_update_beyond linorder_not_less length_map)

lemma total_items_update:
  "i < length (cells m) \<Longrightarrow>
   total_items (m\<lparr>cells := (cells m)[i := c]\<rparr>) + length (items (cells m ! i))
     = total_items m + length (items c)"
proof -
  assume i: "i < length (cells m)"
  let ?xs = "map (\<lambda>c. length (items c)) (cells m)"
  have "?xs ! i \<in> set ?xs" using i by (intro nth_mem) simp
  then have "?xs ! i \<le> sum_list ?xs" by (rule member_le_sum_list) simp
  then have "sum_list (?xs[i := length (items c)]) + ?xs ! i = sum_list ?xs + length (items c)"
    using i by (simp add: sum_list_update)
  with i show ?thesis by (simp add: total_items_def map_update)
qed

lemma cell_strip_value_cases:
  "cell_strip_value v c = (c, False)
   \<or> (\<exists>x. \<not> solved c \<and> x \<in> set (items c)
         \<and> cell_strip_value v c = (c\<lparr>items := remove1 x (items c)\<rparr>, length (remove1 x (items c)) = 1))"
  by (auto simp add: cell_strip_value_def split: pyobj.splits)

lemma store_unchanged: "i < length (cells m) \<Longrightarrow> store i (cells m ! i, False) m = m"
  by (simp add: store_def)

lemma on_unique_value_cases:
  "on_unique_value i m = m \<or> on_unique_value i m = m\<lparr>cleanups := i # cleanups m\<rparr> \<and> i \<notin> set (cleanups m)"
  by (auto simp add: on_unique_value_def register_for_cleanups_def List.insert_def
      split: cell_class.splits matrix_class.splits)

lemma store_keeps:
  assumes "i < length (cells m)" "blank c = blank (cells m ! i)" "f \<longrightarrow> \<not> solved (cells m ! i)"
  shows "keeps m (store i (c, f) m)"
proof -
  let ?m = "m\<lparr>cells := (cells m)[i := c]\<rparr>"
  have b: "map blank (cells ?m) = map blank (cells m)"
    using assms(2) by (simp add: map_blank_update)
  have k: "keeps m ?m" using b by (simp add: keeps_def)
  show ?thesis
  proof (cases f)
    case False
    with k show ?thesis by (simp add: store_def)
  next
    case True
    with assms have p: "pending m i" by (simp add: pending_def)
    from on_unique_value_cases [of i ?m]
    show ?thesis
    proof
      assume "on_unique_value i ?m = ?m"
      with True k show ?thesis by (simp add: store_def)
    next
      assume "on_unique_value i ?m = ?m\<lparr>cleanups := i # cleanups ?m\<rparr> \<and> i \<notin> set (cleanups ?m)"
      with True b p show ?thesis by (simp add: store_def keeps_def)
    qed
  qed
qed

lemma strip_cell_shrinks:
  assumes "i < length (cells m)"
  shows "shrinks m (strip_cell v i m)"
proof -
  from cell_strip_value_cases [of v "cells m ! i"]
  show ?thesis
  proof
    assume "cell_strip_value v (cells m ! i) = (cells m ! i, False)"
    with assms show ?thesis by (simp add: strip_cell_def store_unchanged shrinks_refl)
  next
    assume "\<exists>x. \<not> solved (cells m ! i) \<and> x \<in> set (items (cells m ! i))
         \<and> cell_strip_value v (cells m ! i)
             = ((cells m ! i)\<lparr>items := remove1 x (items (cells m ! i))\<rparr>,
                length (remove1 x (items (cells m ! i))) = 1)"
    then obtain x where u: "\<not> solved (cells m ! i)" and x: "x \<in> set (items (cells m ! i))"
      and e: "cell_strip_value v (cells m ! i)
             = ((cells m ! i)\<lparr>items := remove1 x (items (cells m ! i))\<rparr>,
                length (remove1 x (items (cells m ! i))) = 1)" by blast
    let ?c = "(cells m ! i)\<lparr>items := remove1 x (items (cells m ! i))\<rparr>"
    let ?f = "length (remove1 x (items (cells m ! i))) = 1"
    have k: "keeps m (store i (?c, ?f) m)"
      using assms u by (intro store_keeps) (simp_all add: blank_items_update)
    have t: "total_items (m\<lparr>cells := (cells m)[i := ?c]\<rparr>) + length (items (cells m ! i))
       = total_items m + length (items ?c)" using assms by (rule total_items_update)
    from x length_pos_if_in_set [OF x] have "length (items ?c) < length (items (cells m ! i))"
      by (simp add: length_remove1)
    with t have lt: "total_items (m\<lparr>cells := (cells m)[i := ?c]\<rparr>) < total_items m" by simp
    have "total_items (store i (?c, ?f) m) = total_items (m\<lparr>cells := (cells m)[i := ?c]\<rparr>)"
      using on_unique_value_cases [of i "m\<lparr>cells := (cells m)[i := ?c]\<rparr>"]
      by (auto simp add: store_def total_items_def Let_def)
    with lt k e show ?thesis by (simp add: strip_cell_def shrinks_def)
  qed
qed

lemma fold_strip_cell_shrinks:
  "\<forall>i\<in>set u. i < length (cells m) \<Longrightarrow> shrinks m (fold (strip_cell v) u m)"
proof (induction u arbitrary: m)
  case Nil
  show ?case by (simp add: shrinks_refl)
next
  case (Cons i u)
  have 1: "shrinks m (strip_cell v i m)" using Cons.prems by (simp add: strip_cell_shrinks)
  then have "length (cells (strip_cell v i m)) = length (cells m)"
    by (simp add: shrinks_keeps keeps_length)
  with Cons.prems have "\<forall>j\<in>set u. j < length (cells (strip_cell v i m))" by simp
  then have "shrinks (strip_cell v i m) (fold (strip_cell v) u (strip_cell v i m))"
    by (rule Cons.IH)
  with 1 have "shrinks m (fold (strip_cell v) u (strip_cell v i m))"
    by (rule shrinks_trans)
  then show ?case by simp
qed

lemma cell_set_value_cases:
  assumes "cell_set_value v c = Inr (c', f)"
  shows "blank c' = blank c \<and> (f \<longrightarrow> \<not> solved c)"
  using assms by (auto simp add: cell_set_value_def blank_def split: if_splits pyobj.splits)

lemma set_cell_value_keeps:
  assumes "i < length (cells m)" "set_cell_value v i m = Inr m'"
  shows "keeps m m'"
proof -
  from assms(2) obtain c f where e: "cell_set_value v (cells m ! i) = Inr (c, f)"
    and m': "m' = store i (c, f) m"
    by (auto simp add: set_cell_value_def split: sum.splits)
  from cell_set_value_cases [OF e] assms(1) show ?thesis
    unfolding m' by (intro store_keeps) simp_all
qed

lemma strip_value_keeps:
  assumes "strip_value v r c m = Inr m'"
  shows "keeps m m'"
proof -
  from assms obtain u t where u: "get_unit_cells m r c = Inr u"
    and t: "at (fold (strip_cell v) u m) r c = Inr t"
    and m': "set_cell_value v t (fold (strip_cell v) u m) = Inr m'"
    by (auto simp add: strip_value_def Let_def split: sum.splits)
  have "\<forall>i\<in>set u. i < length (cells m)" using u by (blast dest: get_unit_cells_valid)
  then have 1: "keeps m (fold (strip_cell v) u m)"
    by (intro shrinks_keeps fold_strip_cell_shrinks)
  have "keeps (fold (strip_cell v) u m) m'"
    using at_valid [OF t] m' by (rule set_cell_value_keeps)
  with 1 show ?thesis by (rule keeps_trans)
qed

subsection \<open>The loop of step 2\<close>

lemma popped_mem: "xs \<noteq> [] \<Longrightarrow> popped pop xs \<in> set xs"
  by (simp add: popped_def)

lemma filter_length_update:
  "i < length xs \<Longrightarrow>
   length (filter P (xs[i := y])) + (if P (xs ! i) then 1 else 0)
     = length (filter P xs) + (if P y then 1 else 0)"
proof (induction xs arbitrary: i)
  case Nil
  then show ?case by simp
next
  case (Cons x xs)
  show ?case
  proof (cases i)
    case 0
    then show ?thesis by simp
  next
    case (Suc k)
    with Cons.prems have "k < length xs" by simp
    from Cons.IH [OF this] Suc show ?thesis by simp
  qed
qed

lemma filter_removeAll_le: "length (filter P (removeAll i xs)) \<le> length (filter P xs)"
  by (induction xs) auto

lemma filter_removeAll_less:
  "i \<in> set xs \<Longrightarrow> P i \<Longrightarrow> length (filter P (removeAll i xs)) < length (filter P xs)"
proof (induction xs)
  case Nil
  then show ?case by simp
next
  case (Cons x xs)
  show ?case
  proof (cases "x = i")
    case True
    with Cons.prems filter_removeAll_le [of P i xs] show ?thesis by (simp add: less_Suc_eq_le)
  next
    case False
    with Cons show ?thesis by auto
  qed
qed

lemma removeAll_length_less: "i \<in> set xs \<Longrightarrow> length (removeAll i xs) < length xs"
  using filter_removeAll_less [of i xs "\<lambda>x. True"] by simp

lemma filter_cong_removeAll:
  "(\<And>j. j \<noteq> i \<Longrightarrow> P j = Q j) \<Longrightarrow> filter P (removeAll i xs) = filter Q (removeAll i xs)"
  by (rule filter_cong) auto

lemma lock_measure:
  assumes i: "i \<in> set (cleanups m)"
  defines "m2 \<equiv> m\<lparr>cleanups := removeAll i (cleanups m),
                   cells := (cells m)[i := (cells m ! i)\<lparr>solved := True\<rparr>]\<rparr>"
  shows "unsolved m2 + stale m2 < unsolved m + stale m"
proof -
  have other: "pending m2 j = pending m j" if "j \<noteq> i" for j
    using that by (simp add: pending_def m2_def)
  have st: "stale m2 = length (filter (\<lambda>j. \<not> pending m j) (removeAll i (cleanups m)))"
    using filter_cong_removeAll [of i "\<lambda>j. \<not> pending m2 j" "\<lambda>j. \<not> pending m j" "cleanups m"] other
    by (simp add: stale_def m2_def)
  show ?thesis
  proof (cases "pending m i")
    case True
    then have il: "i < length (cells m)" and u: "\<not> solved (cells m ! i)" by (simp_all add: pending_def)
    from filter_length_update [OF il, of "\<lambda>c. \<not> solved c" "(cells m ! i)\<lparr>solved := True\<rparr>"] u
    have "unsolved m2 + 1 = unsolved m" by (simp add: unsolved_def m2_def)
    moreover have "stale m2 \<le> stale m"
      using filter_removeAll_le [of "\<lambda>j. \<not> pending m j" i "cleanups m"]
      by (simp only: st stale_def [of m])
    ultimately show ?thesis by simp
  next
    case False
    have "(cells m)[i := (cells m ! i)\<lparr>solved := True\<rparr>] = cells m"
    proof (cases "i < length (cells m)")
      case True
      with False have "solved (cells m ! i)" by (simp add: pending_def)
      then have "(cells m ! i)\<lparr>solved := True\<rparr> = cells m ! i" by simp
      then show ?thesis by simp
    next
      case False
      then show ?thesis by (simp add: list_update_beyond)
    qed
    then have "unsolved m2 = unsolved m" by (simp add: unsolved_def m2_def)
    moreover have "stale m2 < stale m"
      using filter_removeAll_less [of i "cleanups m" "\<lambda>j. \<not> pending m j", OF i False]
      by (simp only: st stale_def [of m])
    ultimately show ?thesis by simp
  qed
qed

lemma step_2_body_decreases:
  assumes "cleanups m \<noteq> []" "step_2_body pop m = Inr m'"
  shows "unsolved m' + stale m' < unsolved m + stale m
         \<or> (unsolved m' + stale m' \<le> unsolved m + stale m
             \<and> length (cleanups m') < length (cleanups m)
             \<and> m' = m\<lparr>cleanups := cleanups m'\<rparr>)"
proof -
  let ?i = "popped pop (cleanups m)"
  let ?m1 = "m\<lparr>cleanups := removeAll ?i (cleanups m)\<rparr>"
  let ?m2 = "m\<lparr>cleanups := removeAll ?i (cleanups m),
               cells := (cells m)[?i := (cells m ! ?i)\<lparr>solved := True\<rparr>]\<rparr>"
  have i: "?i \<in> set (cleanups m)" using assms(1) by (rule popped_mem)
  show ?thesis
  proof (cases "length (items (cells m ! ?i)) = 1")
    case True
    with assms(2) obtain v r c where "strip_value v r c ?m2 = Inr m'"
      by (simp add: step_2_body_def Let_def)
    then have k: "keeps ?m2 m'" by (rule strip_value_keeps)
    from lock_measure [OF i] keeps_unsolved [OF k] keeps_stale [OF k]
    show ?thesis by simp
  next
    case False
    with assms(2) have m': "m' = ?m1" by (simp add: step_2_body_def Let_def)
    have "pending ?m1 = pending m" by (rule ext) (simp add: pending_def)
    then have "stale ?m1 \<le> stale m" by (simp add: stale_def filter_removeAll_le)
    moreover have "unsolved ?m1 = unsolved m" by (simp add: unsolved_def)
    moreover have "length (cleanups ?m1) < length (cleanups m)"
      using i by (simp add: removeAll_length_less)
    ultimately show ?thesis unfolding m' by simp
  qed
qed

function do_step_2_loop :: "(nat list \<Rightarrow> nat) \<Rightarrow> matrix \<Rightarrow> error + matrix" where
  "do_step_2_loop pop m =
     (if cleanups m = [] then Inr m
      else
        (case step_2_body pop m of
           Inl e \<Rightarrow> Inl e
         | Inr m' \<Rightarrow> do_step_2_loop pop m'))"
  by pat_completeness auto
termination
proof (relation "measures [\<lambda>p. unsolved (snd p) + stale (snd p), \<lambda>p. length (cleanups (snd p))]")
  show "wf (measures [\<lambda>p. unsolved (snd p) + stale (snd p), \<lambda>p. length (cleanups (snd p))])"
    by simp
next
  fix pop :: "nat list \<Rightarrow> nat" and m m' :: matrix
  assume "cleanups m \<noteq> []" "step_2_body pop m = Inr m'"
  from step_2_body_decreases [OF this]
  show "((pop, m'), (pop, m))
          \<in> measures [\<lambda>p. unsolved (snd p) + stale (snd p), \<lambda>p. length (cleanups (snd p))]"
    by auto
qed

declare do_step_2_loop.simps [simp del]

definition do_step_2 :: "(nat list \<Rightarrow> nat) \<Rightarrow> matrix \<Rightarrow> error + matrix" where
  "do_step_2 pop m =
     (case do_step_2_loop pop m of
        Inl e \<Rightarrow> Inl e
      | Inr m' \<Rightarrow> Inr (m'\<lparr>step := step m' + 1\<rparr>))"

subsection \<open>The solving loop\<close>

lemma keeps_fields:
  assumes "keeps m m'"
  shows "step m' = step m \<and> box_size m' = box_size m \<and> rows m' = rows m
         \<and> columns m' = columns m \<and> mclass m' = mclass m"
proof -
  from assms have e: "m' = m\<lparr>cells := cells m', cleanups := cleanups m'\<rparr>" by (simp add: keeps_def)
  show ?thesis by (subst e, subst (2) e, subst (3) e, subst (4) e, subst (5) e) simp
qed

lemma step_2_body_step:
  assumes "step_2_body pop m = Inr m'"
  shows "step m' = step m"
proof (cases "length (items (cells m ! popped pop (cleanups m))) = 1")
  case True
  with assms obtain v r c where
    "strip_value v r c (m\<lparr>cleanups := removeAll (popped pop (cleanups m)) (cleanups m),
               cells := (cells m)[popped pop (cleanups m) :=
                  (cells m ! popped pop (cleanups m))\<lparr>solved := True\<rparr>]\<rparr>) = Inr m'"
    by (simp add: step_2_body_def Let_def)
  from keeps_fields [OF strip_value_keeps [OF this]] show ?thesis by simp
next
  case False
  with assms show ?thesis by (auto simp add: step_2_body_def Let_def)
qed

lemma total_items_cleanups [simp]: "total_items (m\<lparr>cleanups := xs\<rparr>) = total_items m"
  by (simp add: total_items_def)

lemma do_step_2_loop_effect:
  "do_step_2_loop pop m = Inr m' \<Longrightarrow>
     cleanups m' = [] \<and> step m' = step m
     \<and> (unsolved m' + stale m' < unsolved m + stale m
        \<or> (unsolved m' + stale m' \<le> unsolved m + stale m \<and> total_items m' = total_items m))"
proof (induction pop m rule: do_step_2_loop.induct)
  case (1 pop m)
  show ?case
  proof (cases "cleanups m = []")
    case True
    with "1.prems" show ?thesis by (simp add: do_step_2_loop.simps [of pop m])
  next
    case False
    with "1.prems" obtain m1 where b: "step_2_body pop m = Inr m1" and l: "do_step_2_loop pop m1 = Inr m'"
      by (auto simp add: do_step_2_loop.simps [of pop m] split: sum.splits)
    from "1.IH" [OF False b l] have ih: "cleanups m' = [] \<and> step m' = step m1
     \<and> (unsolved m' + stale m' < unsolved m1 + stale m1
        \<or> (unsolved m' + stale m' \<le> unsolved m1 + stale m1 \<and> total_items m' = total_items m1))" .
    from step_2_body_decreases [OF False b] have d: "unsolved m1 + stale m1 < unsolved m + stale m
         \<or> (unsolved m1 + stale m1 \<le> unsolved m + stale m \<and> total_items m1 = total_items m)"
      by (metis total_items_cleanups)
    from ih d step_2_body_step [OF b] show ?thesis by auto
  qed
qed

lemma shrinks_length: "shrinks m m' \<Longrightarrow> length (cells m') = length (cells m)"
  by (rule keeps_length) (rule shrinks_keeps)

lemma strip_all_of_shrinks:
  assumes "j < length (cells m)"
  shows "shrinks m (strip_all_of i j m)"
proof -
  have "j < length (cells n) \<Longrightarrow> shrinks n (fold (\<lambda>v. strip_cell (Item v) j) vs n)" for vs n
  proof (induction vs arbitrary: n)
    case Nil
    show ?case by (simp add: shrinks_refl)
  next
    case (Cons v vs)
    have 1: "shrinks n (strip_cell (Item v) j n)" using Cons.prems by (rule strip_cell_shrinks)
    from shrinks_length [OF 1] Cons.prems have "j < length (cells (strip_cell (Item v) j n))"
      by simp
    then have "shrinks (strip_cell (Item v) j n) (fold (\<lambda>v. strip_cell (Item v) j) vs (strip_cell (Item v) j n))"
      by (rule Cons.IH)
    with 1 have "shrinks n (fold (\<lambda>v. strip_cell (Item v) j) vs (strip_cell (Item v) j n))"
      by (rule shrinks_trans)
    then show ?case by simp
  qed
  with assms show ?thesis by (simp add: strip_all_of_def)
qed

lemma step_3_lookup_shrinks:
  assumes "\<forall>j\<in>set js. j < length (cells m)"
  shows "shrinks m (step_3_lookup i js m)"
proof -
  have "\<forall>j\<in>set ks. j < length (cells n) \<Longrightarrow>
        shrinks n (fold (\<lambda>j m'. if not_in_sims m' j sims then strip_all_of i j m' else m') ks n)"
    for ks n sims
  proof (induction ks arbitrary: n)
    case Nil
    show ?case by (simp add: shrinks_refl)
  next
    case (Cons k ks)
    let ?n = "if not_in_sims n k sims then strip_all_of i k n else n"
    have 1: "shrinks n ?n" using Cons.prems by (simp add: strip_all_of_shrinks shrinks_refl)
    then have "length (cells ?n) = length (cells n)" by (rule shrinks_length)
    with Cons.prems have "\<forall>j\<in>set ks. j < length (cells ?n)" by simp
    then have "shrinks ?n (fold (\<lambda>j m'. if not_in_sims m' j sims then strip_all_of i j m' else m') ks ?n)"
      by (rule Cons.IH)
    with 1 have "shrinks n (fold (\<lambda>j m'. if not_in_sims m' j sims then strip_all_of i j m' else m') ks ?n)"
      by (rule shrinks_trans)
    then show ?case by simp
  qed
  with assms show ?thesis by (simp add: step_3_lookup_def Let_def shrinks_refl)
qed

lemma step_3_cell_shrinks:
  assumes "step_3_cell i m = Inr m'"
  shows "shrinks m m'"
proof -
  from assms obtain rw cl bx where rw: "get_row_cells m (row (cells m ! i)) = Inr rw"
    and cl: "get_column_cells (step_3_lookup i rw m) (column (cells (step_3_lookup i rw m) ! i)) = Inr cl"
    and bx: "get_box_cells (step_3_lookup i cl (step_3_lookup i rw m))
               (row (cells (step_3_lookup i cl (step_3_lookup i rw m)) ! i))
               (column (cells (step_3_lookup i cl (step_3_lookup i rw m)) ! i)) = Inr bx"
    and m': "m' = step_3_lookup i bx (step_3_lookup i cl (step_3_lookup i rw m))"
    by (auto simp add: step_3_cell_def Let_def split: sum.splits)
  let ?m1 = "step_3_lookup i rw m"
  let ?m2 = "step_3_lookup i cl ?m1"
  have 1: "shrinks m ?m1" using rw by (intro step_3_lookup_shrinks) (blast dest: get_row_cells_valid)
  have 2: "shrinks ?m1 ?m2" using cl by (intro step_3_lookup_shrinks) (blast dest: get_column_cells_valid)
  have 3: "shrinks ?m2 m'" unfolding m' using bx
    by (intro step_3_lookup_shrinks) (blast dest: get_box_cells_valid)
  from 1 2 3 show ?thesis by (blast intro: shrinks_trans)
qed

lemma step_3_each_shrinks:
  "step_3_each js m = Inr m' \<Longrightarrow> shrinks m m'"
proof (induction js arbitrary: m)
  case Nil
  then show ?case by (simp add: shrinks_refl)
next
  case (Cons i js)
  show ?case
  proof (cases "length (items (cells m ! i)) = 1")
    case True
    with Cons show ?thesis by simp
  next
    case False
    show ?thesis
    proof (cases "length (items (cells m ! i)) \<le> box_size m")
      case True
      with False Cons.prems obtain m1 where c: "step_3_cell i m = Inr m1" and r: "step_3_each js m1 = Inr m'"
        by (auto split: sum.splits)
      from step_3_cell_shrinks [OF c] Cons.IH [OF r] show ?thesis by (rule shrinks_trans)
    next
      case nle: False
      with False Cons.prems show ?thesis by (simp add: shrinks_refl)
    qed
  qed
qed

lemma do_step_3_effect:
  assumes "do_step_3 m = Inr m'"
  shows "\<exists>m3. shrinks m m3 \<and> m' = m3\<lparr>step := (if cleanups m3 \<noteq> [] then step m - 1 else step m + 1)\<rparr>"
proof (cases "step_3_each (sorted_cells m) m")
  case (Inl e)
  with assms show ?thesis by (simp add: do_step_3_def)
next
  case (Inr m3)
  from step_3_each_shrinks [OF Inr] have s: "shrinks m m3" .
  from keeps_fields [OF shrinks_keeps [OF s]] have st: "step m3 = step m" by simp
  from assms Inr have "m' = (if cleanups m3 \<noteq> [] then m3\<lparr>step := step m3 - 1\<rparr> else m3\<lparr>step := step m3 + 1\<rparr>)"
    by (simp add: do_step_3_def split: if_splits)
  with st have "m' = m3\<lparr>step := (if cleanups m3 \<noteq> [] then step m - 1 else step m + 1)\<rparr>"
    by (cases "cleanups m3 = []") simp_all
  with s show ?thesis by blast
qed

lemma reset_cell_step: "reset_cell i m = Inr m' \<Longrightarrow> step m' = step m"
  by (auto simp add: reset_cell_def split: sum.splits)

lemma step_1_each_step: "step_1_each js m = Inr m' \<Longrightarrow> step m' = step m"
proof (induction js arbitrary: m)
  case Nil
  then show ?case by simp
next
  case (Cons i js)
  show ?case
  proof (cases "length (items (cells m ! i)) \<noteq> 1")
    case True
    with Cons.prems obtain m1 where r: "reset_cell i m = Inr m1" and e: "step_1_each js m1 = Inr m'"
      by (auto split: sum.splits)
    from Cons.IH [OF e] reset_cell_step [OF r] show ?thesis by simp
  next
    case False
    show ?thesis
    proof (cases "solved (cells m ! i)")
      case True
      with False Cons.prems have "step_1_each js m = Inr m'" by simp
      then show ?thesis by (rule Cons.IH)
    next
      case unsolved: False
      with False Cons.prems have "step_1_each js (register_for_cleanups i m) = Inr m'" by simp
      from Cons.IH [OF this] show ?thesis by (simp add: register_for_cleanups_def)
    qed
  qed
qed

lemma do_step_1_step: "do_step_1 m = Inr m' \<Longrightarrow> step m' = step m + 1"
  by (auto simp add: do_step_1_def split: sum.splits dest: step_1_each_step)

lemma do_step_2_effect:
  assumes "do_step_2 pop m = Inr m'"
  shows "cleanups m' = [] \<and> step m' = step m + 1
     \<and> (unsolved m' + stale m' < unsolved m + stale m
        \<or> (unsolved m' + stale m' \<le> unsolved m + stale m \<and> total_items m' = total_items m))"
proof -
  from assms obtain m2 where l: "do_step_2_loop pop m = Inr m2" and m': "m' = m2\<lparr>step := step m2 + 1\<rparr>"
    by (auto simp add: do_step_2_def split: sum.splits)
  have "unsolved m' = unsolved m2" "stale m' = stale m2" "total_items m' = total_items m2"
    by (simp_all add: m' unsolved_def stale_def pending_def total_items_def)
  with do_step_2_loop_effect [OF l] m' show ?thesis by simp
qed

text \<open>
  The loop of \<open>do_solve\<close> runs the method \<open>do_step_<step>\<close> by name; only the steps 1, 2 and 3
  exist, every other value of \<open>step\<close> raises \<open>AttributeError\<close>.
\<close>

definition do_step :: "(nat list \<Rightarrow> nat) \<Rightarrow> matrix \<Rightarrow> error + matrix" where
  "do_step pop m =
     (if step m = 1 then do_step_1 m
      else if step m = 2 then do_step_2 pop m
      else if step m = 3 then do_step_3 m
      else Inl AttributeError)"

definition phase :: "matrix \<Rightarrow> nat" where
  "phase m =
     (if step m = 3 then (if cleanups m = [] then 1 else 3)
      else if step m = 2 then 2 else 0)"

definition first_step :: "matrix \<Rightarrow> nat" where
  "first_step m = (if step m = 1 then 1 else 0)"

lemma measures_step [simp]:
  "unsolved (m\<lparr>step := s\<rparr>) = unsolved m" "stale (m\<lparr>step := s\<rparr>) = stale m"
  "total_items (m\<lparr>step := s\<rparr>) = total_items m"
  by (simp_all add: unsolved_def stale_def pending_def total_items_def)

lemma shrinks_total:
  "shrinks m m' \<Longrightarrow> total_items m' \<le> total_items m
     \<and> (cleanups m' = cleanups m \<or> total_items m' < total_items m)"
  by (simp add: shrinks_def)

lemma do_step_decreases:
  assumes "do_step pop m = Inr m'"
  shows "((pop, m'), (pop, m))
          \<in> measures [\<lambda>p. first_step (snd p), \<lambda>p. unsolved (snd p) + stale (snd p),
                       \<lambda>p. total_items (snd p), \<lambda>p. phase (snd p)]"
proof -
  consider (one) "step m = 1" | (two) "step m = 2" | (three) "step m = 3"
    using assms by (auto simp add: do_step_def split: if_splits)
  then show ?thesis
  proof cases
    case one
    with assms have "do_step_1 m = Inr m'" by (simp add: do_step_def)
    from do_step_1_step [OF this] one show ?thesis by (simp add: first_step_def)
  next
    case two
    with assms have "do_step_2 pop m = Inr m'" by (simp add: do_step_def)
    from do_step_2_effect [OF this] two show ?thesis
      by (auto simp add: first_step_def phase_def)
  next
    case three
    with assms have "do_step_3 m = Inr m'" by (simp add: do_step_def)
    from do_step_3_effect [OF this] obtain m3 where s: "shrinks m m3"
      and m': "m' = m3\<lparr>step := (if cleanups m3 \<noteq> [] then step m - 1 else step m + 1)\<rparr>" by blast
    note k = shrinks_keeps [OF s]
    have a: "unsolved m' + stale m' = unsolved m + stale m"
      by (simp add: m' keeps_unsolved [OF k] keeps_stale [OF k])
    have f: "first_step m' = first_step m" using three by (simp add: m' first_step_def)
    from shrinks_total [OF s] have t: "total_items m' \<le> total_items m"
      and t': "cleanups m3 = cleanups m \<or> total_items m' < total_items m" by (simp_all add: m')
    have "total_items m' < total_items m \<or> phase m' < phase m"
    proof (cases "cleanups m3 = []")
      case True
      with three show ?thesis by (simp add: m' phase_def)
    next
      case False
      with t' three show ?thesis by (auto simp add: m' phase_def)
    qed
    with a f t show ?thesis by auto
  qed
qed

function do_solve_loop :: "(nat list \<Rightarrow> nat) \<Rightarrow> matrix \<Rightarrow> error + matrix" where
  "do_solve_loop pop m =
     (if do_finished m then Inr m
      else
        (case do_step pop m of
           Inl e \<Rightarrow> Inl e
         | Inr m' \<Rightarrow> do_solve_loop pop m'))"
  by pat_completeness auto
termination
proof (relation "measures [\<lambda>p. first_step (snd p), \<lambda>p. unsolved (snd p) + stale (snd p),
                       \<lambda>p. total_items (snd p), \<lambda>p. phase (snd p)]")
  show "wf (measures [\<lambda>p. first_step (snd p), \<lambda>p. unsolved (snd p) + stale (snd p),
                       \<lambda>p. total_items (snd p), \<lambda>p. phase (snd p)])"
    by simp
next
  fix pop :: "nat list \<Rightarrow> nat" and m m' :: matrix
  assume "do_step pop m = Inr m'"
  then show "((pop, m'), (pop, m))
          \<in> measures [\<lambda>p. first_step (snd p), \<lambda>p. unsolved (snd p) + stale (snd p),
                       \<lambda>p. total_items (snd p), \<lambda>p. phase (snd p)]"
    by (rule do_step_decreases)
qed

declare do_solve_loop.simps [simp del]

definition do_solve :: "(nat list \<Rightarrow> nat) \<Rightarrow> matrix \<Rightarrow> error + matrix" where
  "do_solve pop m = do_solve_loop pop (m\<lparr>step := 1\<rparr>)"

text \<open>
  \<open>solve\<close> catches every exception of \<open>do_solve\<close> and hands it to the hook \<open>failed_solving\<close>,
  which by default reports it and ends the process with status 1.
\<close>

datatype outcome = Returned matrix | FailedSolving error

definition failed_solving :: "error \<Rightarrow> outcome" where
  "failed_solving e = FailedSolving e"

definition solve :: "(nat list \<Rightarrow> nat) \<Rightarrow> matrix \<Rightarrow> outcome" where
  "solve pop m =
     (case do_solve pop m of
        Inl e \<Rightarrow> failed_solving e
      | Inr m' \<Rightarrow> Returned m')"

section \<open>Well-formed grids\<close>

text \<open>
  A grid as \<open>reset_matrix\<close> builds it: \<open>N\<close> rows and columns for a box size \<open>b\<close> with
  \<open>N = b * b\<close>, and \<open>N * N\<close> cells.
\<close>

definition grid_ok :: "matrix \<Rightarrow> bool" where
  "grid_ok m \<longleftrightarrow> 0 < box_size m \<and> columns m = box_size m * box_size m \<and> rows m = columns m
     \<and> length (cells m) = rows m * columns m"

text \<open>The position of the cell at (row, column) in a grid of \<open>n\<close> columns.\<close>

definition pos :: "nat \<Rightarrow> nat \<times> nat \<Rightarrow> nat" where
  "pos n p = fst p * n + snd p"

text \<open>The (row, column) pairs of the row, the column and the box of (r, c).\<close>

definition unit_pairs :: "nat \<Rightarrow> nat \<Rightarrow> nat \<Rightarrow> nat \<Rightarrow> (nat \<times> nat) set" where
  "unit_pairs n b r c =
     {r} \<times> {..<n} \<union> {..<n} \<times> {c}
     \<union> {b * (r div b)..<b * (r div b) + b} \<times> {b * (c div b)..<b * (c div b) + b}"

text \<open>The cell that \<open>fill_with\<close> creates at (r, c) for a base sequence \<open>bs\<close>.\<close>

definition fresh_cell :: "cell_class \<Rightarrow> pyval list \<Rightarrow> int \<Rightarrow> int \<Rightarrow> cell" where
  "fresh_cell k bs r c = \<lparr>cls = k, row = r, column = c, answer = PNone, base_sequence = bs,
                          base_len = length bs, solved = False, items = bs\<rparr>"

section \<open>A concrete grid\<close>

text \<open>The 4 x 4 grid over the base sequence 1..4, as the constructors build it.\<close>

definition cell4 :: "cell_class \<Rightarrow> int \<Rightarrow> int \<Rightarrow> cell" where
  "cell4 k r c = \<lparr>cls = k, row = r, column = c, answer = PNone, base_sequence = map PInt [1..4],
                  base_len = 4, solved = False, items = map PInt [1..4]\<rparr>"

definition grid4 :: "matrix_class \<Rightarrow> matrix" where
  "grid4 k = \<lparr>mclass = k,
              cells = concat (map (\<lambda>r. map (\<lambda>c. cell4 (cell_class_of k) r c) [0, 1, 2, 3]) [0, 1, 2, 3]),
              rows = 4, columns = 4, matrix_base_sequence = map PInt [1..4], matrix_base_len = 4,
              box_size = 2, chutes = 2, cleanups = [], step = 0\<rparr>"

definition kw4 :: matrix_kw where
  "kw4 = \<lparr>kw_matrix_base_sequence = Some (map PInt [1..4]), kw_values = None, kw_answer_list = None\<rparr>"

text \<open>Setting items and the lock of the cell at a position, to describe a state of the grid.\<close>

definition with_cell :: "nat \<Rightarrow> pyval list \<Rightarrow> bool \<Rightarrow> matrix \<Rightarrow> matrix" where
  "with_cell i xs s m = m\<lparr>cells := (cells m)[i := (cells m ! i)\<lparr>items := xs, solved := s\<rparr>]\<rparr>"

text \<open>A state of the 4 x 4 grid with two solved cells in the first row.\<close>

definition locked4 :: matrix where
  "locked4 = with_cell 1 [PInt 1] True (with_cell 0 [PInt 2] True (grid4 SudokuMatrix))"

section \<open>Arguments of the constructor\<close>

text \<open>
  The base sequence a constructor call works with: the keyword if it is given and not
  empty, the default 1..9 otherwise.
\<close>

definition effective_base_sequence :: "matrix_kw \<Rightarrow> pyval list" where
  "effective_base_sequence kw =
     (case kw_matrix_base_sequence kw of
        Some xs \<Rightarrow> if xs \<noteq> [] then xs else map PInt [1..9]
      | None \<Rightarrow> map PInt [1..9])"

definition given :: "'a list option \<Rightarrow> 'a list" where
  "given xs = (case xs of None \<Rightarrow> [] | Some ys \<Rightarrow> ys)"

text \<open>Every initial value and every answer is \<open>None\<close> or an item of the base sequence.\<close>

definition valid_kw :: "matrix_kw \<Rightarrow> bool" where
  "valid_kw kw \<longleftrightarrow>
     set (given (kw_values kw)) \<subseteq> insert PNone (set (effective_base_sequence kw))
     \<and> set (given (kw_answer_list kw)) \<subseteq> insert PNone (set (effective_base_sequence kw))"

text \<open>Constructor arguments: an empty base sequence, and a base sequence of five items.\<close>

definition kw_empty :: matrix_kw where
  "kw_empty = \<lparr>kw_matrix_base_sequence = Some [], kw_values = None, kw_answer_list = None\<rparr>"

definition kw5 :: matrix_kw where
  "kw5 = \<lparr>kw_matrix_base_sequence = Some (map PInt [1..5]), kw_values = None, kw_answer_list = None\<rparr>"

text \<open>
  The 4 x 4 puzzle that \<open>generate\<close> hands to the solver when the shuffle leaves the first
  row as 1, 2, 3, 4; and a choice for \<open>pop\<close>.
\<close>

definition kw_row4 :: matrix_kw where
  "kw_row4 = \<lparr>kw_matrix_base_sequence = Some (map PInt [1..4]),
              kw_values = Some [PInt 1, PInt 2, PInt 3, PInt 4], kw_answer_list = None\<rparr>"

definition pop_first :: "nat list \<Rightarrow> nat" where
  "pop_first xs = 0"

definition seeded4 :: matrix where
  "seeded4 =
     with_cell 3 [PInt 4] False (with_cell 2 [PInt 3] False (with_cell 1 [PInt 2] False
       (with_cell 0 [PInt 1] False ((grid4 SudokuMatrixSolver)\<lparr>cleanups := [3, 2, 1, 0]\<rparr>))))"

text \<open>The same puzzle after the steps 1 and 2: the first row is solved and propagated.\<close>

definition with_items :: "pyval list list \<Rightarrow> matrix \<Rightarrow> matrix" where
  "with_items xss m = m\<lparr>cells := map (\<lambda>p. (fst p)\<lparr>items := snd p\<rparr>) (zip (cells m) xss)\<rparr>"

definition propagated4 :: matrix where
  "propagated4 =
     with_cell 3 [PInt 4] True (with_cell 2 [PInt 3] True (with_cell 1 [PInt 2] True
       (with_cell 0 [PInt 1] True
         (with_items
            [[], [], [], [],
             [PInt 3, PInt 4], [PInt 3, PInt 4], [PInt 1, PInt 2], [PInt 1, PInt 2],
             [PInt 2, PInt 3, PInt 4], [PInt 1, PInt 3, PInt 4], [PInt 1, PInt 2, PInt 4],
             [PInt 1, PInt 2, PInt 3],
             [PInt 2, PInt 3, PInt 4], [PInt 1, PInt 3, PInt 4], [PInt 1, PInt 2, PInt 4],
             [PInt 1, PInt 2, PInt 3]]
            ((grid4 SudokuMatrixSolver)\<lparr>step := 3\<rparr>)))))"

section \<open>States of the solver\<close>

text \<open>
  \<open>in_place m\<close>: a well-formed grid whose cells carry the row and column of their position
  (as \<open>fill_with\<close> creates them), and whose cleanups are cells of the grid.
\<close>

definition in_place :: "matrix \<Rightarrow> bool" where
  "in_place m \<longleftrightarrow>
     grid_ok m
     \<and> list_all (\<lambda>j. row (cells m ! j) = int (j div columns m)
                     \<and> column (cells m ! j) = int (j mod columns m)) (ids m)
     \<and> list_all (\<lambda>j. j < length (cells m)) (cleanups m)"

text \<open>\<open>stuck m i\<close>: the cell at position \<open>i\<close> is not solved and has no item left.\<close>

definition stuck :: "matrix \<Rightarrow> nat \<Rightarrow> bool" where
  "stuck m i \<longleftrightarrow> i < length (cells m) \<and> \<not> solved (cells m ! i) \<and> items (cells m ! i) = []"

text \<open>
  \<open>rounds pop n m = Some m'\<close>: the \<open>while\<close> loop of \<open>do_solve\<close>, entered in state \<open>m\<close>, makes at
  least \<open>n\<close> rounds and is in state \<open>m'\<close> after the first \<open>n\<close> of them.
\<close>

fun rounds :: "(nat list \<Rightarrow> nat) \<Rightarrow> nat \<Rightarrow> matrix \<Rightarrow> matrix option" where
  "rounds pop 0 m = Some m"
| "rounds pop (Suc n) m =
     (if do_finished m then None
      else case do_step pop m of Inl e \<Rightarrow> None | Inr m' \<Rightarrow> rounds pop n m')"

text \<open>The 4 x 4 puzzle with the value 1 given twice in the first row, and a later state of it.\<close>

definition kw_clash4 :: matrix_kw where
  "kw_clash4 = \<lparr>kw_matrix_base_sequence = Some (map PInt [1..4]),
                kw_values = Some [PInt 1, PInt 1], kw_answer_list = None\<rparr>"

definition clash4 :: matrix where
  "clash4 = with_cell 1 [PInt 1] False (with_cell 0 [PInt 1] False
              ((grid4 SudokuMatrixSolver)\<lparr>cleanups := [1, 0]\<rparr>))"

text \<open>
  The state of that puzzle after two rounds of the solving loop: the cell at (0, 1) is
  solved as 1, and the cell at (0, 0) has lost its only item.
\<close>

definition stuck4 :: matrix where
  "stuck4 =
     with_cell 1 [PInt 1] True
       (with_items
          [[], [],
           [PInt 2, PInt 3, PInt 4], [PInt 2, PInt 3, PInt 4],
           [PInt 2, PInt 3, PInt 4], [PInt 2, PInt 3, PInt 4],
           [PInt 1, PInt 2, PInt 3, PInt 4], [PInt 1, PInt 2, PInt 3, PInt 4],
           [PInt 1, PInt 2, PInt 3, PInt 4], [PInt 2, PInt 3, PInt 4],
           [PInt 1, PInt 2, PInt 3, PInt 4], [PInt 1, PInt 2, PInt 3, PInt 4],
           [PInt 1, PInt 2, PInt 3, PInt 4], [PInt 2, PInt 3, PInt 4],
           [PInt 1, PInt 2, PInt 3, PInt 4], [PInt 1, PInt 2, PInt 3, PInt 4]]
          ((grid4 SudokuMatrixSolver)\<lparr>step := 3\<rparr>))"

section \<open>Cells with identical items\<close>







text \<open>
  A state of the 4 x 4 grid at step 3 in which the second row holds two pairs that share an
  item: 1, 3 in its first two cells and 1, 2 in its last two.
\<close>

definition shadowed4 :: matrix where
  "shadowed4 = with_cell 7 [PInt 1, PInt 2] False (with_cell 6 [PInt 1, PInt 2] False
                 (with_cell 5 [PInt 1, PInt 3] False (with_cell 4 [PInt 1, PInt 3] False
                   ((grid4 SudokuMatrixSolver)\<lparr>step := 3\<rparr>))))"

section \<open>Rows, columns, boxes and units of a well-formed grid\<close>

lemma inj_on_pos: "inj_on (pos n) (A \<times> {..<n})"
proof (rule inj_onI)
  fix p q assume p: "p \<in> A \<times> {..<n}" and q: "q \<in> A \<times> {..<n}" and e: "pos n p = pos n q"
  obtain a b where pq: "p = (a, b)" by (cases p)
  obtain c d where qq: "q = (c, d)" by (cases q)
  from p q pq qq have b: "b < n" and d: "d < n" by auto
  from e pq qq have e': "a * n + b = c * n + d" by (simp add: pos_def)
  from e' b d have "(a * n + b) div n = (c * n + d) div n" by simp
  with b d have "a = c" by simp
  with e' have "b = d" by simp
  with \<open>a = c\<close> pq qq show "p = q" by simp
qed

lemma py_slice_upt: "a \<le> b \<Longrightarrow> b \<le> n \<Longrightarrow> py_slice a b [0..<n] = [a..<b]"
  by (simp add: py_slice_def take_upt)

lemma py_slice_step_upt:
  "0 < k \<Longrightarrow> c < k \<Longrightarrow> py_slice_step c k [0..<k * k] = map (\<lambda>j. c + j * k) [0..<k]"
proof -
  assume k: "0 < k" and c: "c < k"
  have "(k * k + k - 1 - c) div k = k"
  proof -
    have "k * k + k - 1 - c = (k - 1 - c) + k * k" using c by simp
    moreover have "k - 1 - c < k" using k by simp
    ultimately show ?thesis by simp
  qed
  moreover have "\<And>j. j < k \<Longrightarrow> c + j * k < k * k"
  proof -
    fix j assume "j < k"
    then have "Suc j \<le> k" by simp
    then have "Suc j * k \<le> k * k" by (rule mult_le_mono1)
    with c show "c + j * k < k * k" by simp
  qed
  ultimately show ?thesis
    by (simp add: py_slice_step_def)
qed

lemma ensure_inbounds_ok:
  "r < rows m \<Longrightarrow> c < columns m \<Longrightarrow> ensure_inbounds m (int r) (int c) = Inr ()"
  by (simp add: ensure_inbounds_def)

lemma ensure_inbounds_ok0:
  "r < rows m \<Longrightarrow> 0 < columns m \<Longrightarrow> ensure_inbounds m (int r) 0 = Inr ()"
  "c < columns m \<Longrightarrow> 0 < rows m \<Longrightarrow> ensure_inbounds m 0 (int c) = Inr ()"
  by (simp_all add: ensure_inbounds_def)

lemma get_row_cells_ok:
  assumes "grid_ok m" "r < rows m"
  shows "get_row_cells m (int r) = Inr [r * columns m..<r * columns m + columns m]"
proof -
  from assms have "Suc r \<le> rows m" by simp
  then have "Suc r * columns m \<le> rows m * columns m" by (rule mult_le_mono1)
  moreover from assms have "0 < columns m" "length (cells m) = rows m * columns m"
    by (auto simp add: grid_ok_def)
  ultimately show ?thesis using assms(2)
    by (simp add: get_row_cells_def ensure_inbounds_ok0 ids_def py_slice_upt add.commute)
qed

lemma get_column_cells_ok:
  assumes "grid_ok m" "c < columns m"
  shows "get_column_cells m (int c) = Inr (map (\<lambda>j. c + j * columns m) [0..<columns m])"
proof -
  from assms have "0 < rows m" "length (cells m) = columns m * columns m"
    by (auto simp add: grid_ok_def)
  with assms(2) py_slice_step_upt [of "columns m" c] show ?thesis
    by (simp add: get_column_cells_def ensure_inbounds_ok0 ids_def)
qed

lemma box_bounds:
  fixes b r :: nat
  assumes "0 < b" "r < b * b"
  shows "b * (r div b) \<le> r" "r < b * (r div b) + b" "b * (r div b) + b \<le> b * b"
proof -
  have e: "b * (r div b) + r mod b = r" by (rule mult_div_mod_eq)
  have l: "r mod b < b" using assms(1) by simp
  show "b * (r div b) \<le> r" using e by linarith
  show "r < b * (r div b) + b" using e l by linarith
  have "r div b < b" using assms by (simp add: less_mult_imp_div_less)
  then have "Suc (r div b) \<le> b" by simp
  then have "b * Suc (r div b) \<le> b * b" by (rule mult_le_mono2)
  then show "b * (r div b) + b \<le> b * b" by simp
qed

lemma get_box_cells_ok:
  assumes "grid_ok m" "r < rows m" "c < columns m"
  shows "get_box_cells m (int r) (int c) =
     Inr (concat (map (\<lambda>rw. [rw * columns m + box_size m * (c div box_size m)..<
                               rw * columns m + box_size m * (c div box_size m) + box_size m])
            [box_size m * (r div box_size m)..<box_size m * (r div box_size m) + box_size m]))"
proof -
  let ?b = "box_size m" and ?n = "columns m"
  from assms have b: "0 < ?b" and n: "?n = ?b * ?b" and rn: "r < ?b * ?b" and cn: "c < ?b * ?b"
    and len: "length (cells m) = ?n * ?n"
    by (simp_all add: grid_ok_def)
  have sl: "py_slice (rw * ?n + ?b * (c div ?b)) (rw * ?n + ?b * (c div ?b) + ?b) (ids m)
            = [rw * ?n + ?b * (c div ?b)..<rw * ?n + ?b * (c div ?b) + ?b]"
    if "rw \<in> set [?b * (r div ?b)..<?b * (r div ?b) + ?b]" for rw
  proof -
    from that box_bounds(3) [OF b rn] have "rw < ?n" using n by simp
    then have "Suc rw \<le> ?n" by simp
    then have "Suc rw * ?n \<le> ?n * ?n" by (rule mult_le_mono1)
    moreover have "?b * (c div ?b) + ?b \<le> ?n" using box_bounds(3) [OF b cn] n by simp
    ultimately have "rw * ?n + ?b * (c div ?b) + ?b \<le> ?n * ?n" by simp
    then show ?thesis by (simp add: ids_def len py_slice_upt)
  qed
  have meq: "map (\<lambda>rw. py_slice (rw * ?n + ?b * (c div ?b)) (rw * ?n + ?b * (c div ?b) + ?b) (ids m))
          [?b * (r div ?b)..<?b * (r div ?b) + ?b]
        = map (\<lambda>rw. [rw * ?n + ?b * (c div ?b)..<rw * ?n + ?b * (c div ?b) + ?b])
          [?b * (r div ?b)..<?b * (r div ?b) + ?b]"
    by (rule map_cong [OF refl]) (rule sl)
  from assms(2,3) b show ?thesis
    by (simp add: get_box_cells_def ensure_inbounds_ok Let_def meq)
qed

lemma pos_image: "pos n ` (I \<times> J) = (\<Union>i\<in>I. (\<lambda>j. i * n + j) ` J)"
proof (rule set_eqI)
  fix x show "x \<in> pos n ` (I \<times> J) \<longleftrightarrow> x \<in> (\<Union>i\<in>I. (\<lambda>j. i * n + j) ` J)"
  proof
    assume "x \<in> pos n ` (I \<times> J)"
    then obtain i j where "i \<in> I" "j \<in> J" "x = i * n + j" by (auto simp add: pos_def)
    then show "x \<in> (\<Union>i\<in>I. (\<lambda>j. i * n + j) ` J)" by blast
  next
    assume "x \<in> (\<Union>i\<in>I. (\<lambda>j. i * n + j) ` J)"
    then obtain i j where ij: "i \<in> I" "j \<in> J" and x: "x = i * n + j" by blast
    from ij have "(i, j) \<in> I \<times> J" by simp
    moreover from x have "x = pos n (i, j)" by (simp add: pos_def)
    ultimately show "x \<in> pos n ` (I \<times> J)" by (rule rev_image_eqI)
  qed
qed

lemma shifted_interval: "{a + c..<a + c + k} = (\<lambda>j. a + j) ` {c..<c + (k::nat)}"
proof (rule set_eqI)
  fix x show "x \<in> {a + c..<a + c + k} \<longleftrightarrow> x \<in> (\<lambda>j. a + j) ` {c..<c + k}"
  proof
    assume "x \<in> {a + c..<a + c + k}"
    then have "x = a + (x - a)" "x - a \<in> {c..<c + k}" by auto
    then show "x \<in> (\<lambda>j. a + j) ` {c..<c + k}" by (rule image_eqI)
  qed auto
qed

lemma set_row_pos: "set [r * n..<r * n + n] = pos n ` ({r} \<times> {..<n})"
proof -
  have "pos n ` ({r} \<times> {0..<0 + n}) = (\<lambda>j. r * n + j) ` {0..<0 + n}"
    by (simp only: pos_image) simp
  also have "\<dots> = {r * n + 0..<r * n + 0 + n}"
    by (rule shifted_interval [symmetric])
  finally show ?thesis by (simp add: lessThan_atLeast0)
qed

lemma set_column_pos: "set (map (\<lambda>j. c + j * n) [0..<n]) = pos n ` ({..<n} \<times> {c})"
  by (auto simp add: pos_def image_iff add.commute)

lemma set_box_pos:
  "set (concat (map (\<lambda>rw. [rw * n + c0..<rw * n + c0 + b]) [r0..<r0 + b]))
     = pos n ` ({r0..<r0 + b} \<times> {c0..<c0 + b})"
proof -
  have "set (concat (map (\<lambda>rw. [rw * n + c0..<rw * n + c0 + b]) [r0..<r0 + b]))
      = (\<Union>rw\<in>{r0..<r0 + b}. {rw * n + c0..<rw * n + c0 + b})"
    by simp
  also have "\<dots> = (\<Union>rw\<in>{r0..<r0 + b}. (\<lambda>j. rw * n + j) ` {c0..<c0 + b})"
    by (simp only: shifted_interval)
  also have "\<dots> = pos n ` ({r0..<r0 + b} \<times> {c0..<c0 + b})"
    by (simp only: pos_image)
  finally show ?thesis .
qed

lemma card_unit_pairs:
  fixes n b r c r0 c0 :: nat
  assumes "r0 \<le> r" "r < r0 + b" "r0 + b \<le> n" "c0 \<le> c" "c < c0 + b" "c0 + b \<le> n"
  shows "card ({r} \<times> {..<n} \<union> {..<n} \<times> {c} \<union> {r0..<r0 + b} \<times> {c0..<c0 + b})
           = (n - b) + (n - b) + b * b"
proof -
  let ?I = "{r0..<r0 + b}" and ?J = "{c0..<c0 + b}"
  let ?A = "{r} \<times> ({..<n} - ?J)" and ?B = "({..<n} - ?I) \<times> {c}" and ?C = "?I \<times> ?J"
  have eq: "{r} \<times> {..<n} \<union> {..<n} \<times> {c} \<union> ?I \<times> ?J = ?A \<union> ?B \<union> ?C"
    using assms by auto
  have cJ: "card ({..<n} - ?J) = n - b" using assms by (subst card_Diff_subset) auto
  have cI: "card ({..<n} - ?I) = n - b" using assms by (subst card_Diff_subset) auto
  have "card (?A \<union> ?B \<union> ?C) = card (?A \<union> ?B) + card ?C"
    using assms by (intro card_Un_disjoint) auto
  also have "card (?A \<union> ?B) = card ?A + card ?B"
    using assms by (intro card_Un_disjoint) auto
  also have "card ?A = n - b" using cJ by (simp add: card_cartesian_product)
  also have "card ?B = n - b" using cI by (simp add: card_cartesian_product)
  also have "card ?C = b * b" by (simp add: card_cartesian_product)
  finally have "card (?A \<union> ?B \<union> ?C) = (n - b) + (n - b) + b * b" .
  with eq show ?thesis by simp
qed

lemma get_unit_cells_ok:
  assumes "grid_ok m" "r < rows m" "c < columns m"
  shows "\<exists>u. get_unit_cells m (int r) (int c) = Inr u \<and> distinct u
           \<and> set u = pos (columns m) ` unit_pairs (columns m) (box_size m) r c"
proof -
  let ?n = "columns m" and ?b = "box_size m"
  let ?rw = "[r * ?n..<r * ?n + ?n]"
  let ?cl = "map (\<lambda>j. c + j * ?n) [0..<?n]"
  let ?bx = "concat (map (\<lambda>rw. [rw * ?n + ?b * (c div ?b)..<rw * ?n + ?b * (c div ?b) + ?b])
            [?b * (r div ?b)..<?b * (r div ?b) + ?b])"
  have u: "get_unit_cells m (int r) (int c) = Inr (remdups (?rw @ ?cl @ ?bx))"
    using assms
    by (simp add: get_unit_cells_def get_row_cells_ok get_column_cells_ok get_box_cells_ok)
  have "set (remdups (?rw @ ?cl @ ?bx)) = set ?rw \<union> set ?cl \<union> set ?bx"
    by (simp only: set_remdups set_append Un_assoc)
  also have "\<dots> = pos ?n ` unit_pairs ?n ?b r c"
    by (simp only: set_row_pos set_column_pos set_box_pos unit_pairs_def image_Un)
  finally show ?thesis using u by simp
qed

lemma unit_pairs_in_grid:
  assumes "0 < b" "n = b * b" "r < n" "c < n"
  shows "unit_pairs n b r c \<subseteq> {..<n} \<times> {..<n}"
  using assms box_bounds(3) [of b r] box_bounds(3) [of b c]
  by (auto simp add: unit_pairs_def)

lemma card_unit_pairs_grid:
  assumes "0 < b" "n = b * b" "r < n" "c < n"
  shows "card (unit_pairs n b r c) = 3 * n - 2 * b"
proof -
  from assms have r: "r < b * b" and c: "c < b * b" by simp_all
  have "card (unit_pairs n b r c) = (n - b) + (n - b) + b * b"
    unfolding unit_pairs_def
    using box_bounds [OF assms(1) r] box_bounds [OF assms(1) c] assms(2)
    by (intro card_unit_pairs) simp_all
  moreover have "b \<le> n" using assms by simp
  ultimately show ?thesis using assms(2) by simp
qed

lemma pos_less:
  assumes "p \<in> {..<n} \<times> {..<n}"
  shows "pos n p < n * n"
proof -
  from assms have "fst p < n" "snd p < n" by auto
  then have "Suc (fst p) \<le> n" by simp
  then have "Suc (fst p) * n \<le> n * n" by (rule mult_le_mono1)
  with \<open>snd p < n\<close> show ?thesis by (simp add: pos_def)
qed

lemma unit_cells_length:
  assumes "grid_ok m" "r < rows m" "c < columns m"
  shows "\<exists>u. get_unit_cells m (int r) (int c) = Inr u \<and> distinct u
           \<and> length u = 3 * columns m - 2 * box_size m"
proof -
  let ?n = "columns m" and ?b = "box_size m"
  from assms have b: "0 < ?b" and n: "?n = ?b * ?b" and r: "r < ?n" by (simp_all add: grid_ok_def)
  from get_unit_cells_ok [OF assms] obtain u where u: "get_unit_cells m (int r) (int c) = Inr u"
    and d: "distinct u" and s: "set u = pos ?n ` unit_pairs ?n ?b r c" by blast
  have "inj_on (pos ?n) (unit_pairs ?n ?b r c)"
    by (rule inj_on_subset [OF inj_on_pos unit_pairs_in_grid [OF b n r assms(3)]])
  then have "card (set u) = card (unit_pairs ?n ?b r c)"
    by (simp add: s card_image)
  with d have "length u = 3 * ?n - 2 * ?b"
    by (simp add: distinct_card card_unit_pairs_grid [OF b n r assms(3)])
  with u d show ?thesis by blast
qed

section \<open>The concrete grid is the constructed one\<close>

lemma floor_sqrt_4: "floor_sqrt 4 = 2"
  by (simp add: floor_sqrt_def numeral_eq_Suc)

lemma new_matrix_grid4: "new_matrix k kw4 = Inr (grid4 k)"
  by (cases k) (simp_all add: new_matrix_def reset_matrix_def kw4_def floor_sqrt_4 reset_contents_def
     fill_with_def new_cell_def cell_reset_def cell_set_answer_def cell_set_values_def grid4_def cell4_def
     reset_values_def set_answer_values_def Let_def upt_rec cell_class_of_def)

lemma grid4_ok: "grid_ok (grid4 k)"
  by (simp add: grid_ok_def grid4_def)

lemma get_unit_cells_grid4_00: "get_unit_cells (grid4 k) 0 0 = Inr [2, 3, 8, 12, 0, 1, 4, 5]"
  by (simp add: get_unit_cells_def get_row_cells_def get_column_cells_def get_box_cells_def
      ensure_inbounds_def ids_def py_slice_def py_slice_step_def grid4_def Let_def upt_rec)

lemma get_unit_cells_with_cell [simp]:
  "get_unit_cells (with_cell i xs s m) r c = get_unit_cells m r c"
  by (simp add: get_unit_cells_def get_row_cells_def get_column_cells_def get_box_cells_def
      ensure_inbounds_def ids_def with_cell_def)

lemma at_with_cell [simp]: "at (with_cell i xs s m) r c = at m r c"
  by (simp add: at_def ensure_inbounds_def with_cell_def)

lemma grid_ok_with_cell [simp]: "grid_ok (with_cell i xs s m) = grid_ok m"
  by (simp add: grid_ok_def with_cell_def)

lemma upto_1_4: "[1..4] = [1, 2, 3, 4::int]"
  by (simp add: upto.simps)

lemma grid4_cells:
  "cells (grid4 k) = [cell4 (cell_class_of k) 0 0, cell4 (cell_class_of k) 0 1, cell4 (cell_class_of k) 0 2, cell4 (cell_class_of k) 0 3,
     cell4 (cell_class_of k) 1 0, cell4 (cell_class_of k) 1 1, cell4 (cell_class_of k) 1 2, cell4 (cell_class_of k) 1 3,
     cell4 (cell_class_of k) 2 0, cell4 (cell_class_of k) 2 1, cell4 (cell_class_of k) 2 2, cell4 (cell_class_of k) 2 3,
     cell4 (cell_class_of k) 3 0, cell4 (cell_class_of k) 3 1, cell4 (cell_class_of k) 3 2, cell4 (cell_class_of k) 3 3]"
  by (simp add: grid4_def)

lemma at_grid4_00: "at (grid4 k) 0 0 = Inr 0"
  by (simp add: at_def ensure_inbounds_def grid4_def)

lemma keeps_at: "keeps m m' \<Longrightarrow> at m' r c = at m r c"
  using keeps_fields [of m m'] keeps_length [of m m'] by (simp add: at_def ensure_inbounds_def)

lemma get_unit_cells_grid4_01: "get_unit_cells (grid4 k) 0 1 = Inr [2, 3, 9, 13, 0, 1, 4, 5]"
  by (simp add: get_unit_cells_def get_row_cells_def get_column_cells_def get_box_cells_def
      ensure_inbounds_def ids_def py_slice_def py_slice_step_def grid4_def Let_def upt_rec)

section \<open>What \<open>strip_value\<close> does to the cells\<close>

lemma cells_on_unique_value [simp]: "cells (on_unique_value i m) = cells m"
  by (simp add: on_unique_value_def register_for_cleanups_def split: cell_class.splits matrix_class.splits)

lemma cells_store [simp]: "cells (store i cf m) = (cells m)[i := fst cf]"
  by (simp add: store_def Let_def)

lemma cells_strip_cell: "cells (strip_cell v i m) = (cells m)[i := fst (cell_strip_value v (cells m ! i))]"
  by (simp add: strip_cell_def)

lemma fold_strip_cell_nth:
  "distinct u \<Longrightarrow> \<forall>i\<in>set u. i < length (cells m) \<Longrightarrow> j < length (cells m) \<Longrightarrow>
   cells (fold (strip_cell v) u m) ! j =
     (if j \<in> set u then fst (cell_strip_value v (cells m ! j)) else cells m ! j)"
proof (induction u arbitrary: m)
  case Nil
  then show ?case by simp
next
  case (Cons i u)
  let ?m = "strip_cell v i m"
  have len: "length (cells ?m) = length (cells m)" by (simp add: cells_strip_cell)
  from Cons.prems have d: "distinct u" and iu: "i \<notin> set u" by simp_all
  from Cons.prems len have v: "\<forall>k\<in>set u. k < length (cells ?m)" and j: "j < length (cells ?m)"
    by simp_all
  have "cells (fold (strip_cell v) u ?m) ! j =
     (if j \<in> set u then fst (cell_strip_value v (cells ?m ! j)) else cells ?m ! j)"
    using d v j by (rule Cons.IH)
  moreover have "cells ?m ! j = (if j = i then fst (cell_strip_value v (cells m ! i)) else cells m ! j)"
    using Cons.prems by (simp add: cells_strip_cell nth_list_update)
  ultimately show ?case using iu by auto
qed

lemma cell_strip_value_absent:
  "\<not> solved c \<Longrightarrow> distinct (items c) \<Longrightarrow> x \<notin> set (items (fst (cell_strip_value (Item x) c)))"
  by (simp add: cell_strip_value_def)

lemma cell_strip_value_solved: "solved c \<Longrightarrow> fst (cell_strip_value v c) = c"
  by (simp add: cell_strip_value_def)

lemma cell_strip_value_attrs:
  "solved (fst (cell_strip_value v c)) = solved c"
  "base_sequence (fst (cell_strip_value v c)) = base_sequence c"
  by (simp_all add: cell_strip_value_def split: pyobj.splits)

lemma cell_set_value_member:
  "\<not> solved c \<Longrightarrow> x \<in> set (base_sequence c) \<Longrightarrow>
   \<exists>f. cell_set_value (Item x) c = Inr (c\<lparr>items := [x]\<rparr>, f)"
  by (cases "x = PNone") (auto simp add: cell_set_value_def)

lemma cell_set_value_solved: "solved c \<Longrightarrow> cell_set_value v c = Inr (c, False)"
  by (simp add: cell_set_value_def)

lemma get_value_single: "truthy x \<Longrightarrow> items c = [x] \<Longrightarrow> cell_get_value c = Item x"
  by (simp add: cell_get_value_def)

lemma at_ok:
  assumes "grid_ok m" "r < rows m" "c < columns m"
  shows "at m (int r) (int c) = Inr (r * columns m + c)"
proof -
  have "pos (columns m) (r, c) < columns m * columns m"
    using assms by (intro pos_less) (simp add: grid_ok_def)
  with assms show ?thesis by (simp add: at_def ensure_inbounds_ok grid_ok_def pos_def)
qed

lemma keeps_grid_ok: "keeps m m' \<Longrightarrow> grid_ok m \<Longrightarrow> grid_ok m'"
  using keeps_fields [of m m'] keeps_length [of m m'] by (simp add: grid_ok_def)

section \<open>Construction of a grid\<close>

lemma sqrt_search_le: "sqrt_search n k * sqrt_search n k \<le> n"
  by (induction k) simp_all

lemma sqrt_search_ge: "b \<le> k \<Longrightarrow> b * b \<le> n \<Longrightarrow> b \<le> sqrt_search n k"
proof (induction k)
  case 0
  then show ?case by simp
next
  case (Suc k)
  show ?case
  proof (cases "Suc k * Suc k \<le> n")
    case True
    with Suc.prems show ?thesis by simp
  next
    case False
    with Suc.prems have "b \<noteq> Suc k" by auto
    with Suc.prems have "b \<le> k" by simp
    with Suc False show ?thesis by simp
  qed
qed

lemma floor_sqrt_square: "floor_sqrt (b * b) = b"
proof -
  have "b \<le> b * b" by (cases b) simp_all
  then have 1: "b \<le> floor_sqrt (b * b)" unfolding floor_sqrt_def by (rule sqrt_search_ge) simp
  have "floor_sqrt (b * b) * floor_sqrt (b * b) \<le> b * b"
    unfolding floor_sqrt_def by (rule sqrt_search_le)
  then have "(floor_sqrt (b * b))\<^sup>2 \<le> b\<^sup>2" by (simp only: power2_eq_square)
  then have "floor_sqrt (b * b) \<le> b" by (rule power2_le_imp_le) simp
  with 1 show ?thesis by simp
qed

lemma floor_sqrt_iff: "floor_sqrt n * floor_sqrt n = n \<longleftrightarrow> (\<exists>b. b * b = n)"
  using floor_sqrt_square by auto

lemma fill_with_fresh:
  assumes "matrix_base_sequence m \<noteq> []"
  shows "fill_with m r c = Inr (fresh_cell (cell_class_of (mclass m)) (matrix_base_sequence m) (int r) (int c))"
  using assms
  by (simp add: fill_with_def new_cell_def cell_reset_def cell_set_answer_def cell_set_values_def
      fresh_cell_def Let_def)

lemma collect_map_Inr: "collect (map Inr ys) = Inr ys"
  by (induction ys) simp_all

lemma reset_contents_fresh:
  assumes "matrix_base_sequence m \<noteq> []"
  shows "reset_contents m =
     Inr (m\<lparr>cells := concat (map (\<lambda>r. map (\<lambda>c. fresh_cell (cell_class_of (mclass m))
                                  (matrix_base_sequence m) (int r) (int c)) [0..<columns m]) [0..<rows m])\<rparr>)"
proof -
  let ?f = "\<lambda>r c. fresh_cell (cell_class_of (mclass m)) (matrix_base_sequence m) (int r) (int c)"
  have "concat (map (\<lambda>r. map (\<lambda>c. fill_with m r c) [0..<columns m]) [0..<rows m])
        = map Inr (concat (map (\<lambda>r. map (\<lambda>c. ?f r c) [0..<columns m]) [0..<rows m]))"
    by (simp add: fill_with_fresh [OF assms] map_concat comp_def)
  then show ?thesis by (simp only: reset_contents_def collect_map_Inr sum.case)
qed

lemma length_concat_grid: "length (concat (map (\<lambda>r. map (f r) [0..<n]) [0..<k])) = k * n"
  by (induction k) simp_all

lemma set_concat_grid:
  "x \<in> set (concat (map (\<lambda>r. map (f r) [0..<n]) [0..<k])) \<Longrightarrow> \<exists>r c. x = f r c"
  by auto

lemma blank_base_sequence: "blank c' = blank c \<Longrightarrow> base_sequence c' = base_sequence c"
  unfolding blank_def by (metis cell.select_convs(5) cell.surjective cell.update_convs(8))

lemma keeps_base_sequence:
  "keeps m m' \<Longrightarrow> i < length (cells m) \<Longrightarrow> base_sequence (cells m' ! i) = base_sequence (cells m ! i)"
  by (rule blank_base_sequence) (rule keeps_blank)

lemma set_cell_value_ok:
  assumes "v = PNone \<or> v \<in> set (base_sequence (cells m ! i))"
  shows "\<exists>m'. set_cell_value (Item v) i m = Inr m'"
  using assms by (auto simp add: set_cell_value_def cell_set_value_def)

lemma set_value_each_ok:
  assumes "\<forall>p\<in>set ps. fst p < length (cells m) \<and> (snd p = PNone \<or> snd p \<in> set bs)"
    and "\<forall>i<length (cells m). base_sequence (cells m ! i) = bs"
  shows "\<exists>m'. set_value_each ps m = Inr m' \<and> keeps m m'"
  using assms
proof (induction ps arbitrary: m)
  case Nil
  then show ?case by (simp add: keeps_refl)
next
  case (Cons p ps)
  from Cons.prems have i: "fst p < length (cells m)" and v: "snd p = PNone \<or> snd p \<in> set (base_sequence (cells m ! fst p))"
    by auto
  from set_cell_value_ok [OF v] obtain m1 where m1: "set_cell_value (Item (snd p)) (fst p) m = Inr m1" by blast
  from set_cell_value_keeps [OF i m1] have k: "keeps m m1" .
  have len: "length (cells m1) = length (cells m)" using k by (rule keeps_length)
  have "\<forall>q\<in>set ps. fst q < length (cells m1) \<and> (snd q = PNone \<or> snd q \<in> set bs)"
    using Cons.prems(1) len by simp
  moreover have "\<forall>i<length (cells m1). base_sequence (cells m1 ! i) = bs"
    using Cons.prems(2) len keeps_base_sequence [OF k] by simp
  ultimately obtain m' where m': "set_value_each ps m1 = Inr m'" and k': "keeps m1 m'"
    using Cons.IH by blast
  from m1 m' keeps_trans [OF k k'] show ?case by simp
qed

lemma zip_ids_valid:
  "p \<in> set (zip (py_slice 0 k (ids m)) vs) \<Longrightarrow> fst p < length (cells m) \<and> snd p \<in> set vs"
proof -
  assume p: "p \<in> set (zip (py_slice 0 k (ids m)) vs)"
  obtain a b where ab: "p = (a, b)" by (cases p)
  from p ab have "a \<in> set (py_slice 0 k (ids m))" "b \<in> set vs" by (auto dest: set_zip_leftD set_zip_rightD)
  with py_slice_subset [of 0 k "ids m"] ab show ?thesis by (auto simp add: ids_def)
qed

lemma reset_values_ok:
  assumes "set (given vals) \<subseteq> insert PNone (set bs)"
    and "\<forall>i<length (cells m). base_sequence (cells m ! i) = bs"
  shows "\<exists>m'. reset_values vals m = Inr m' \<and> keeps m m'"
proof (cases vals)
  case None
  then show ?thesis by (simp add: reset_values_def keeps_refl)
next
  case (Some vs)
  show ?thesis
  proof (cases "vs = []")
    case True
    with Some show ?thesis by (simp add: reset_values_def keeps_refl)
  next
    case False
    let ?ps = "zip (py_slice 0 (min (length vs) (length (cells m))) (ids m)) vs"
    have "\<forall>p\<in>set ?ps. fst p < length (cells m) \<and> (snd p = PNone \<or> snd p \<in> set bs)"
      using assms(1) Some by (auto simp add: given_def dest!: zip_ids_valid)
    from set_value_each_ok [OF this assms(2)] Some False show ?thesis
      by (simp add: reset_values_def)
  qed
qed

lemma set_answer_each_ok:
  assumes "\<forall>p\<in>set ps. fst p < length (cells m) \<and> (snd p = PNone \<or> snd p \<in> set bs)"
    and "\<forall>i<length (cells m). base_sequence (cells m ! i) = bs"
  shows "\<exists>m'. set_answer_each ps m = Inr m' \<and> m' = m\<lparr>cells := cells m'\<rparr>
          \<and> length (cells m') = length (cells m)"
  using assms
proof (induction ps arbitrary: m)
  case Nil
  then show ?case by simp
next
  case (Cons p ps)
  let ?m1 = "m\<lparr>cells := (cells m)[fst p := (cells m ! fst p)\<lparr>answer := snd p\<rparr>]\<rparr>"
  from Cons.prems have m1: "set_cell_answer (snd p) (fst p) m = Inr ?m1"
    by (auto simp add: set_cell_answer_def cell_set_answer_def)
  have "\<forall>q\<in>set ps. fst q < length (cells ?m1) \<and> (snd q = PNone \<or> snd q \<in> set bs)"
    using Cons.prems(1) by simp
  moreover have "\<forall>i<length (cells ?m1). base_sequence (cells ?m1 ! i) = bs"
  proof (intro allI impI)
    fix i assume "i < length (cells ?m1)"
    then have i: "i < length (cells m)" by simp
    with Cons.prems(2) have b: "base_sequence (cells m ! i) = bs" by simp
    show "base_sequence (cells ?m1 ! i) = bs"
    proof (cases "i = fst p")
      case True
      with i b show ?thesis by simp
    next
      case False
      with b show ?thesis by simp
    qed
  qed
  ultimately obtain m' where m': "set_answer_each ps ?m1 = Inr m'" and e: "m' = ?m1\<lparr>cells := cells m'\<rparr>"
    and l: "length (cells m') = length (cells ?m1)"
    using Cons.IH by blast
  from e have "m' = m\<lparr>cells := cells m'\<rparr>" by simp
  with m1 m' l show ?case by simp
qed

lemma set_answer_values_ok:
  assumes "set (given answers) \<subseteq> insert PNone (set bs)"
    and "\<forall>i<length (cells m). base_sequence (cells m ! i) = bs"
  shows "\<exists>m'. set_answer_values answers m = Inr m' \<and> m' = m\<lparr>cells := cells m'\<rparr>
          \<and> length (cells m') = length (cells m)"
proof (cases answers)
  case None
  then show ?thesis by (simp add: set_answer_values_def)
next
  case (Some vs)
  show ?thesis
  proof (cases "vs = []")
    case True
    with Some show ?thesis by (simp add: set_answer_values_def)
  next
    case False
    let ?ps = "zip (py_slice 0 (min (length vs) (length (cells m))) (ids m)) vs"
    have "\<forall>p\<in>set ?ps. fst p < length (cells m) \<and> (snd p = PNone \<or> snd p \<in> set bs)"
      using assms(1) Some by (auto simp add: given_def dest!: zip_ids_valid)
    from set_answer_each_ok [OF this assms(2)] Some False show ?thesis
      by (simp add: set_answer_values_def)
  qed
qed

lemma upto_1_9: "[1..9] = [1, 2, 3, 4, 5, 6, 7, 8, 9::int]"
  by (simp add: upto.simps)

lemma effective_base_sequence_nonempty: "effective_base_sequence kw \<noteq> []"
  by (simp add: effective_base_sequence_def upto_1_9 split: option.splits)

text \<open>The matrix on which \<open>reset_matrix\<close> calls \<open>reset_contents\<close> during construction.\<close>

lemma new_matrix_unfold:
  "new_matrix k kw =
     (let bs = effective_base_sequence kw
      in if floor_sqrt (length bs) * floor_sqrt (length bs) \<noteq> length bs then Inl SudokuMatrixError
         else
           (case reset_contents
                   \<lparr>mclass = k, cells = [], rows = length bs, columns = length bs,
                    matrix_base_sequence = bs, matrix_base_len = length bs,
                    box_size = floor_sqrt (length bs), chutes = length bs div floor_sqrt (length bs),
                    cleanups = [], step = 0\<rparr> of
              Inl e \<Rightarrow> Inl e
            | Inr m3 \<Rightarrow>
                (case reset_values (kw_values kw) m3 of
                   Inl e \<Rightarrow> Inl e
                 | Inr m4 \<Rightarrow> set_answer_values (kw_answer_list kw) m4)))"
proof (cases "kw_matrix_base_sequence kw")
  case None
  then have e: "effective_base_sequence kw = map PInt [1..9]" by (simp add: effective_base_sequence_def)
  show ?thesis using None
    by (cases k) (simp_all add: new_matrix_def reset_matrix_def e Let_def upto_1_9)
next
  case (Some xs)
  show ?thesis
  proof (cases "xs = []")
    case True
    with Some have e: "effective_base_sequence kw = map PInt [1..9]" by (simp add: effective_base_sequence_def)
    show ?thesis using Some True
      by (cases k) (simp_all add: new_matrix_def reset_matrix_def e Let_def upto_1_9)
  next
    case False
    with Some have e: "effective_base_sequence kw = xs" by (simp add: effective_base_sequence_def)
    show ?thesis using Some False
      by (cases k) (simp_all add: new_matrix_def reset_matrix_def e Let_def)
  qed
qed

lemma new_matrix_not_square:
  assumes "\<not> (\<exists>b. b * b = length (effective_base_sequence kw))"
  shows "new_matrix k kw = Inl SudokuMatrixError"
  using assms by (simp add: new_matrix_unfold Let_def floor_sqrt_iff)

lemma new_matrix_square:
  assumes sq: "length (effective_base_sequence kw) = b * b" and valid: "valid_kw kw"
  shows "\<exists>m. new_matrix k kw = Inr m \<and> grid_ok m \<and> mclass m = k \<and> rows m = b * b
            \<and> columns m = b * b \<and> box_size m = b
            \<and> matrix_base_sequence m = effective_base_sequence kw"
proof -
  let ?bs = "effective_base_sequence kw"
  let ?m2 = "\<lparr>mclass = k, cells = [], rows = length ?bs, columns = length ?bs,
                    matrix_base_sequence = ?bs, matrix_base_len = length ?bs,
                    box_size = floor_sqrt (length ?bs), chutes = length ?bs div floor_sqrt (length ?bs),
                    cleanups = [], step = 0\<rparr>"
  let ?cs = "concat (map (\<lambda>r. map (\<lambda>c. fresh_cell (cell_class_of k) ?bs (int r) (int c))
                [0..<length ?bs]) [0..<length ?bs])"
  let ?m3 = "?m2\<lparr>cells := ?cs\<rparr>"
  have ne: "?bs \<noteq> []" by (rule effective_base_sequence_nonempty)
  have fs: "floor_sqrt (length ?bs) = b" by (simp add: sq floor_sqrt_square)
  have b: "0 < b" using ne sq by (cases b) simp_all
  have rc: "reset_contents ?m2 = Inr ?m3"
    using reset_contents_fresh [of ?m2] ne by simp
  have len3: "length (cells ?m3) = length ?bs * length ?bs" by (simp add: length_concat_grid)
  have bs3: "\<forall>i<length (cells ?m3). base_sequence (cells ?m3 ! i) = ?bs"
  proof (intro allI impI)
    fix i assume "i < length (cells ?m3)"
    then have "cells ?m3 ! i \<in> set ?cs" by (simp del: set_concat)
    then obtain r c where "cells ?m3 ! i = fresh_cell (cell_class_of k) ?bs (int r) (int c)"
      by (auto dest!: set_concat_grid [where f = "\<lambda>r c. fresh_cell (cell_class_of k) ?bs (int r) (int c)"])
    then show "base_sequence (cells ?m3 ! i) = ?bs" by (simp add: fresh_cell_def)
  qed
  from valid have v1: "set (given (kw_values kw)) \<subseteq> insert PNone (set ?bs)"
    and v2: "set (given (kw_answer_list kw)) \<subseteq> insert PNone (set ?bs)" by (simp_all add: valid_kw_def)
  from reset_values_ok [OF v1 bs3] obtain m4 where m4: "reset_values (kw_values kw) ?m3 = Inr m4"
    and k4: "keeps ?m3 m4" by blast
  have len4: "length (cells m4) = length (cells ?m3)" using k4 by (rule keeps_length)
  have bs4: "\<forall>i<length (cells m4). base_sequence (cells m4 ! i) = ?bs"
    using bs3 len4 keeps_base_sequence [OF k4] by simp
  from set_answer_values_ok [OF v2 bs4] obtain m5 where m5: "set_answer_values (kw_answer_list kw) m4 = Inr m5"
    and e5: "m5 = m4\<lparr>cells := cells m5\<rparr>" and len5: "length (cells m5) = length (cells m4)" by blast
  from e5 have f5: "rows m5 = rows m4 \<and> columns m5 = columns m4 \<and> box_size m5 = box_size m4
          \<and> mclass m5 = mclass m4 \<and> matrix_base_sequence m5 = matrix_base_sequence m4"
    by (metis matrix.select_convs(1,3,4,5,7) matrix.surjective matrix.update_convs(2))
  from k4 have e4: "m4 = ?m3\<lparr>cells := cells m4, cleanups := cleanups m4\<rparr>" by (simp only: keeps_def)
  have f4: "rows m4 = length ?bs \<and> columns m4 = length ?bs \<and> box_size m4 = b
          \<and> mclass m4 = k \<and> matrix_base_sequence m4 = ?bs"
    by (subst e4, subst (2) e4, subst (3) e4, subst (4) e4, subst (5) e4) (simp add: fs)
  have res: "new_matrix k kw = Inr m5"
    using rc m4 m5 by (simp add: new_matrix_unfold Let_def sq floor_sqrt_square)
  have "grid_ok m5" using f4 f5 len3 len4 len5 b sq by (simp add: grid_ok_def)
  with res f4 f5 sq show ?thesis by simp
qed

lemma upto_1_5: "[1..5] = [1, 2, 3, 4, 5::int]"
  by (simp add: upto.simps)

lemma effective_kw4: "effective_base_sequence kw4 = map PInt [1, 2, 3, 4]"
  by (simp add: effective_base_sequence_def kw4_def upto_1_4)

lemma effective_kw5: "effective_base_sequence kw5 = map PInt [1, 2, 3, 4, 5]"
  by (simp add: effective_base_sequence_def kw5_def upto_1_5)

lemma effective_kw_empty: "effective_base_sequence kw_empty = map PInt [1, 2, 3, 4, 5, 6, 7, 8, 9]"
  by (simp add: effective_base_sequence_def kw_empty_def upto_1_9)

lemma kw5_not_square: "\<not> (\<exists>b. b * b = length (effective_base_sequence kw5))"
proof
  assume "\<exists>b. b * b = length (effective_base_sequence kw5)"
  then have "floor_sqrt (length (effective_base_sequence kw5)) * floor_sqrt (length (effective_base_sequence kw5))
             = length (effective_base_sequence kw5)"
    by (rule floor_sqrt_iff [THEN iffD2])
  then show False by (simp add: effective_kw5 floor_sqrt_def)
qed


section \<open>Properties of the solving loop\<close>

lemma new_matrix_seeded4: "new_matrix SudokuMatrixSolver kw_row4 = Inr seeded4"
  by code_simp

lemma do_step_1_seeded4: "do_step_1 (seeded4\<lparr>step := 1\<rparr>) = Inr (seeded4\<lparr>step := 2\<rparr>)"
  by code_simp

lemma do_step_2_seeded4: "do_step_2 pop_first (seeded4\<lparr>step := 2\<rparr>) = Inr propagated4"
  by code_simp

lemma do_step_3_propagated4: "do_step_3 propagated4 = Inr (propagated4\<lparr>step := 4\<rparr>)"
  by code_simp

lemma propagated4_facts:
  "step propagated4 = 3" "cleanups propagated4 = []" "\<not> do_finished propagated4"
  by code_simp+

lemma solve_seeded4: "solve pop_first seeded4 = FailedSolving AttributeError"
  by code_simp

lemma do_solve_loop_finished: "do_solve_loop pop m = Inr m' \<Longrightarrow> do_finished m'"
proof (induction pop m rule: do_solve_loop.induct)
  case (1 pop m)
  show ?case
  proof (cases "do_finished m")
    case True
    with "1.prems" show ?thesis by (simp add: do_solve_loop.simps [of pop m])
  next
    case False
    with "1.prems" obtain m1 where s: "do_step pop m = Inr m1" and l: "do_solve_loop pop m1 = Inr m'"
      by (auto simp add: do_solve_loop.simps [of pop m] split: sum.splits)
    from "1.IH" [OF False s l] show ?thesis .
  qed
qed

lemma do_solve_loop_no_step:
  assumes "step m \<noteq> 1" "step m \<noteq> 2" "step m \<noteq> 3"
  shows "do_solve_loop pop m = (if do_finished m then Inr m else Inl AttributeError)"
  using assms by (simp add: do_solve_loop.simps [of pop m] do_step_def)

lemma do_step_3_step:
  assumes "do_step_3 m = Inr m'"
  shows "step m' = (if cleanups m' \<noteq> [] then step m - 1 else step m + 1)"
proof -
  from do_step_3_effect [OF assms] obtain m3 where
    "m' = m3\<lparr>step := (if cleanups m3 \<noteq> [] then step m - 1 else step m + 1)\<rparr>" by blast
  then have "step m' = (if cleanups m3 \<noteq> [] then step m - 1 else step m + 1)" and "cleanups m' = cleanups m3"
    by simp_all
  then show ?thesis by simp
qed

lemma do_step_not_first:
  assumes "step m \<noteq> 1" "do_step pop m = Inr m'"
  shows "step m' \<noteq> 1"
proof -
  consider (two) "step m = 2" | (three) "step m = 3"
    using assms by (auto simp add: do_step_def split: if_splits)
  then show ?thesis
  proof cases
    case two
    with assms have "do_step_2 pop m = Inr m'" by (simp add: do_step_def)
    from do_step_2_effect [OF this] two show ?thesis by simp
  next
    case three
    with assms have "do_step_3 m = Inr m'" by (simp add: do_step_def)
    from do_step_3_step [OF this] three show ?thesis by (simp split: if_splits)
  qed
qed


section \<open>Contradictions during solving\<close>

subsection \<open>A stuck cell stays stuck\<close>

lemma stuck_update:
  assumes "stuck m i" and "j = i \<longrightarrow> c = cells m ! i"
  shows "stuck (m\<lparr>cells := (cells m)[j := c]\<rparr>) i"
  using assms by (cases "j = i") (simp_all add: stuck_def)

lemma stuck_cleanups [simp]: "stuck (m\<lparr>cleanups := xs\<rparr>) i = stuck m i"
  by (simp add: stuck_def)

lemma stuck_step [simp]: "stuck (m\<lparr>step := s\<rparr>) i = stuck m i"
  by (simp add: stuck_def)

lemma stuck_on_unique_value [simp]: "stuck (on_unique_value j m) i = stuck m i"
  by (simp add: stuck_def)

lemma stuck_store:
  assumes "stuck m i" and "j = i \<longrightarrow> fst cf = cells m ! i"
  shows "stuck (store j cf m) i"
  using stuck_update [OF assms] by (simp add: store_def Let_def)

lemma cell_strip_value_empty: "items c = [] \<Longrightarrow> cell_strip_value v c = (c, False)"
  by (simp add: cell_strip_value_def split: pyobj.splits)

lemma stuck_strip_cell: "stuck m i \<Longrightarrow> stuck (strip_cell v j m) i"
  unfolding strip_cell_def
  by (rule stuck_store) (simp_all add: stuck_def cell_strip_value_empty)

lemma stuck_fold_strip_cell: "stuck m i \<Longrightarrow> stuck (fold (strip_cell v) u m) i"
  by (induction u arbitrary: m) (simp_all add: stuck_strip_cell)

lemma stuck_strip_all_of: "stuck m i \<Longrightarrow> stuck (strip_all_of k j m) i"
proof -
  have "stuck n i \<Longrightarrow> stuck (fold (\<lambda>v. strip_cell (Item v) j) vs n) i" for vs n
    by (induction vs arbitrary: n) (simp_all add: stuck_strip_cell)
  then show "stuck m i \<Longrightarrow> stuck (strip_all_of k j m) i" by (simp add: strip_all_of_def)
qed

lemma stuck_step_3_lookup: "stuck m i \<Longrightarrow> stuck (step_3_lookup k js m) i"
proof -
  have "stuck n i \<Longrightarrow>
        stuck (fold (\<lambda>j m'. if not_in_sims m' j sims then strip_all_of k j m' else m') ks n) i"
    for ks n sims
    by (induction ks arbitrary: n) (simp_all add: stuck_strip_all_of)
  then show "stuck m i \<Longrightarrow> stuck (step_3_lookup k js m) i"
    by (simp add: step_3_lookup_def Let_def)
qed

lemma stuck_step_3_cell:
  assumes "stuck m i" "step_3_cell k m = Inr m'"
  shows "stuck m' i"
proof -
  from assms(2) obtain rw cl bx where
    "m' = step_3_lookup k bx (step_3_lookup k cl (step_3_lookup k rw m))"
    by (auto simp add: step_3_cell_def Let_def split: sum.splits)
  with assms(1) show ?thesis by (simp add: stuck_step_3_lookup)
qed

lemma stuck_step_3_each:
  "stuck m i \<Longrightarrow> step_3_each js m = Inr m' \<Longrightarrow> stuck m' i"
proof (induction js arbitrary: m)
  case Nil
  then show ?case by simp
next
  case (Cons k js)
  show ?case
  proof (cases "length (items (cells m ! k)) = 1")
    case True
    with Cons show ?thesis by simp
  next
    case False
    show ?thesis
    proof (cases "length (items (cells m ! k)) \<le> box_size m")
      case True
      with False Cons.prems obtain m1 where c: "step_3_cell k m = Inr m1" and r: "step_3_each js m1 = Inr m'"
        by (auto split: sum.splits)
      from stuck_step_3_cell [OF Cons.prems(1) c] r show ?thesis by (rule Cons.IH)
    next
      case nle: False
      with False Cons.prems show ?thesis by simp
    qed
  qed
qed

lemma stuck_do_step_3:
  assumes "stuck m i" "do_step_3 m = Inr m'"
  shows "stuck m' i"
proof (cases "step_3_each (sorted_cells m) m")
  case (Inl e)
  with assms show ?thesis by (simp add: do_step_3_def)
next
  case (Inr m3)
  from stuck_step_3_each [OF assms(1) Inr] have "stuck m3 i" .
  moreover from assms(2) Inr have "m' = m3\<lparr>step := step m3 - 1\<rparr> \<or> m' = m3\<lparr>step := step m3 + 1\<rparr>"
    by (simp add: do_step_3_def split: if_splits)
  ultimately show ?thesis by auto
qed

subsection \<open>Cells stay in place\<close>

lemma blank_row: "blank c' = blank c \<Longrightarrow> row c' = row c \<and> column c' = column c"
  unfolding blank_def by (metis cell.select_convs(2,3) cell.surjective cell.update_convs(8))

lemma in_place_iff:
  "in_place m \<longleftrightarrow> grid_ok m
     \<and> (\<forall>j<length (cells m). row (cells m ! j) = int (j div columns m)
                              \<and> column (cells m ! j) = int (j mod columns m))
     \<and> (\<forall>j\<in>set (cleanups m). j < length (cells m))"
  by (auto simp add: in_place_def list_all_iff ids_def)

lemma in_place_keeps:
  assumes "in_place m" "keeps m m'"
  shows "in_place m'"
proof -
  note f = keeps_fields [OF assms(2)] and l = keeps_length [OF assms(2)]
  from assms(2) obtain ys where ys: "cleanups m' = ys @ cleanups m" "list_all (pending m) ys"
    by (auto simp add: keeps_def)
  have 1: "grid_ok m'" using assms by (simp add: in_place_iff keeps_grid_ok)
  have 2: "\<forall>j<length (cells m'). row (cells m' ! j) = int (j div columns m')
                              \<and> column (cells m' ! j) = int (j mod columns m')"
  proof (intro allI impI)
    fix j assume "j < length (cells m')"
    with l have j: "j < length (cells m)" by simp
    from blank_row [OF keeps_blank [OF assms(2) j]] assms(1) j f
    show "row (cells m' ! j) = int (j div columns m') \<and> column (cells m' ! j) = int (j mod columns m')"
      by (simp add: in_place_iff)
  qed
  have 3: "\<forall>j\<in>set (cleanups m'). j < length (cells m')"
    using ys assms(1) l by (auto simp add: in_place_iff list_all_iff pending_def)
  from 1 2 3 show ?thesis by (simp add: in_place_iff)
qed

lemma in_place_step [simp]: "in_place (m\<lparr>step := s\<rparr>) = in_place m"
  by (simp add: in_place_def grid_ok_def ids_def)

lemma in_place_do_step_3:
  assumes "in_place m" "do_step_3 m = Inr m'"
  shows "in_place m'"
proof -
  from do_step_3_effect [OF assms(2)] obtain m3 where s: "shrinks m m3"
    and m': "m' = m3\<lparr>step := (if cleanups m3 \<noteq> [] then step m - 1 else step m + 1)\<rparr>" by blast
  from in_place_keeps [OF assms(1) shrinks_keeps [OF s]] show ?thesis by (simp add: m')
qed

lemma at_in_place:
  assumes "in_place m" "j < length (cells m)"
  shows "at m (row (cells m ! j)) (column (cells m ! j)) = Inr j"
proof -
  let ?n = "columns m"
  from assms have g: "grid_ok m" and r: "row (cells m ! j) = int (j div ?n)"
    and c: "column (cells m ! j) = int (j mod ?n)" by (simp_all add: in_place_iff)
  from g assms(2) have n: "0 < ?n" and jn: "j < ?n * ?n" and rows: "rows m = ?n"
    by (auto simp add: grid_ok_def)
  from jn have "j div ?n < ?n" by (simp add: less_mult_imp_div_less)
  with rows have 1: "j div ?n < rows m" by simp
  have 2: "j mod ?n < ?n" using n by simp
  from at_ok [OF g 1 2] r c show ?thesis by simp
qed

lemma step_2_body_stuck:
  assumes ip: "in_place m" and st: "stuck m i" and ne: "cleanups m \<noteq> []"
    and b: "step_2_body pop m = Inr m'"
  shows "in_place m' \<and> stuck m' i"
proof -
  let ?j = "popped pop (cleanups m)"
  let ?m1 = "m\<lparr>cleanups := removeAll ?j (cleanups m)\<rparr>"
  have jc: "?j \<in> set (cleanups m)" using ne by (rule popped_mem)
  with ip have jl: "?j < length (cells m)" by (simp add: in_place_iff)
  have ip1: "in_place ?m1" using ip by (auto simp add: in_place_iff grid_ok_def)
  show ?thesis
  proof (cases "length (items (cells m ! ?j)) = 1")
    case False
    with b have "m' = ?m1" by (simp add: step_2_body_def Let_def)
    with ip1 st show ?thesis by simp
  next
    case True
    let ?c = "(cells m ! ?j)\<lparr>solved := True\<rparr>"
    let ?m2 = "?m1\<lparr>cells := (cells ?m1)[?j := ?c]\<rparr>"
    from True st have ji: "?j \<noteq> i" by (auto simp add: stuck_def)
    have c2: "cells ?m2 ! ?j = ?c" using jl by simp
    have ip2: "in_place ?m2"
    proof -
      from ip1 have g: "grid_ok ?m1"
        and rc: "\<forall>k<length (cells ?m1). row (cells ?m1 ! k) = int (k div columns ?m1)
                              \<and> column (cells ?m1 ! k) = int (k mod columns ?m1)"
        and cl: "\<forall>k\<in>set (cleanups ?m1). k < length (cells ?m1)"
        unfolding in_place_iff by blast+
      have g2: "grid_ok ?m2" using g by (simp add: grid_ok_def)
      have rc2: "\<forall>k<length (cells ?m2). row (cells ?m2 ! k) = int (k div columns ?m2)
                              \<and> column (cells ?m2 ! k) = int (k mod columns ?m2)"
      proof (intro allI impI)
        fix k assume "k < length (cells ?m2)"
        then have k: "k < length (cells ?m1)" by simp
        with rc have "row (cells ?m1 ! k) = int (k div columns ?m1)
                    \<and> column (cells ?m1 ! k) = int (k mod columns ?m1)" by blast
        then show "row (cells ?m2 ! k) = int (k div columns ?m2)
                 \<and> column (cells ?m2 ! k) = int (k mod columns ?m2)"
          using k by (cases "k = ?j") simp_all
      qed
      have cl2: "\<forall>k\<in>set (cleanups ?m2). k < length (cells ?m2)" using cl by simp
      from g2 rc2 cl2 show ?thesis unfolding in_place_iff by blast
    qed
    have st2: "stuck ?m2 i" using st ji by (simp add: stuck_def)
    let ?v = "cell_get_value ?c"
    from True b c2 have sv: "strip_value ?v (row ?c) (column ?c) ?m2 = Inr m'"
      by (simp add: step_2_body_def Let_def)
    from sv obtain u t where u: "get_unit_cells ?m2 (row ?c) (column ?c) = Inr u"
      and t: "at (fold (strip_cell ?v) u ?m2) (row ?c) (column ?c) = Inr t"
      and m': "set_cell_value ?v t (fold (strip_cell ?v) u ?m2) = Inr m'"
      by (auto simp add: strip_value_def Let_def split: sum.splits)
    let ?m3 = "fold (strip_cell ?v) u ?m2"
    have k3: "keeps ?m2 ?m3"
      using u by (intro shrinks_keeps fold_strip_cell_shrinks) (blast dest: get_unit_cells_valid)
    have ip3: "in_place ?m3" using ip2 k3 by (rule in_place_keeps)
    have st3: "stuck ?m3 i" using st2 by (rule stuck_fold_strip_cell)
    have jl2: "?j < length (cells ?m2)" using jl by simp
    from at_in_place [OF ip2 jl2] c2 have "at ?m2 (row ?c) (column ?c) = Inr ?j" by simp
    with keeps_at [OF k3] t have tj: "t = ?j" by simp
    have "solved (cells ?m3 ! ?j)" using keeps_solved [OF k3 jl2] c2 by simp
    then have "cell_set_value ?v (cells ?m3 ! ?j) = Inr (cells ?m3 ! ?j, False)"
      by (rule cell_set_value_solved)
    with m' tj have e: "m' = store ?j (cells ?m3 ! ?j, False) ?m3"
      by (simp add: set_cell_value_def)
    have "keeps ?m3 m'" using at_valid [OF t] m' by (rule set_cell_value_keeps)
    with ip3 have "in_place m'" by (rule in_place_keeps)
    moreover have "stuck m' i" unfolding e using st3 ji by (intro stuck_store) simp_all
    ultimately show ?thesis by simp
  qed
qed

lemma do_step_2_loop_stuck:
  "in_place m \<Longrightarrow> stuck m i \<Longrightarrow> do_step_2_loop pop m = Inr m' \<Longrightarrow> in_place m' \<and> stuck m' i"
proof (induction pop m rule: do_step_2_loop.induct)
  case (1 pop m)
  show ?case
  proof (cases "cleanups m = []")
    case True
    with "1.prems" show ?thesis by (simp add: do_step_2_loop.simps [of pop m])
  next
    case False
    with "1.prems" obtain m1 where b: "step_2_body pop m = Inr m1" and l: "do_step_2_loop pop m1 = Inr m'"
      by (auto simp add: do_step_2_loop.simps [of pop m] split: sum.splits)
    from step_2_body_stuck [OF "1.prems"(1,2) False b] have "in_place m1" "stuck m1 i" by simp_all
    with "1.IH" [OF False b] l show ?thesis by simp
  qed
qed

lemma do_step_2_stuck:
  assumes "in_place m" "stuck m i" "do_step_2 pop m = Inr m'"
  shows "in_place m' \<and> stuck m' i"
proof -
  from assms(3) obtain m2 where l: "do_step_2_loop pop m = Inr m2" and m': "m' = m2\<lparr>step := step m2 + 1\<rparr>"
    by (auto simp add: do_step_2_def split: sum.splits)
  from do_step_2_loop_stuck [OF assms(1,2) l] show ?thesis by (simp add: m')
qed

lemma do_step_stuck:
  assumes "in_place m" "stuck m i" "step m \<noteq> 1" "do_step pop m = Inr m'"
  shows "in_place m' \<and> stuck m' i \<and> step m' \<noteq> 1"
proof -
  have s: "step m' \<noteq> 1" using assms(3,4) by (rule do_step_not_first)
  consider (two) "step m = 2" | (three) "step m = 3"
    using assms by (auto simp add: do_step_def split: if_splits)
  then show ?thesis
  proof cases
    case two
    with assms have "do_step_2 pop m = Inr m'" by (simp add: do_step_def)
    from do_step_2_stuck [OF assms(1,2) this] s show ?thesis by simp
  next
    case three
    with assms have d: "do_step_3 m = Inr m'" by (simp add: do_step_def)
    from in_place_do_step_3 [OF assms(1) d] stuck_do_step_3 [OF assms(2) d] s show ?thesis by simp
  qed
qed

lemma stuck_not_finished: "stuck m i \<Longrightarrow> \<not> do_finished m"
  by (auto simp add: stuck_def do_finished_def list_all_iff)

lemma do_solve_loop_stuck:
  "in_place m \<Longrightarrow> stuck m i \<Longrightarrow> step m \<noteq> 1 \<Longrightarrow> \<exists>e. do_solve_loop pop m = Inl e"
proof (induction pop m rule: do_solve_loop.induct)
  case (1 pop m)
  from "1.prems"(2) have nf: "\<not> do_finished m" by (rule stuck_not_finished)
  show ?case
  proof (cases "do_step pop m")
    case (Inl e)
    with nf show ?thesis by (simp add: do_solve_loop.simps [of pop m])
  next
    case (Inr m1)
    from do_step_stuck [OF "1.prems" Inr] have "in_place m1" "stuck m1 i" "step m1 \<noteq> 1" by simp_all
    from "1.IH" [OF nf Inr this] obtain e where "do_solve_loop pop m1 = Inl e" by blast
    with nf Inr show ?thesis by (simp add: do_solve_loop.simps [of pop m])
  qed
qed

lemma rounds_do_solve_loop:
  "rounds pop n m = Some m' \<Longrightarrow> do_solve_loop pop m = do_solve_loop pop m'"
proof (induction n arbitrary: m)
  case 0
  then show ?case by simp
next
  case (Suc n)
  from Suc.prems have nf: "\<not> do_finished m" by (simp split: if_splits)
  with Suc.prems obtain m1 where s: "do_step pop m = Inr m1" and r: "rounds pop n m1 = Some m'"
    by (auto split: sum.splits)
  from nf s have "do_solve_loop pop m = do_solve_loop pop m1"
    by (simp add: do_solve_loop.simps [of pop m])
  with Suc.IH [OF r] show ?case by simp
qed

lemma rounds_step:
  "rounds pop n m = Some m' \<Longrightarrow> 0 < n \<or> step m \<noteq> 1 \<Longrightarrow> step m' \<noteq> 1"
proof (induction n arbitrary: m)
  case 0
  then show ?case by auto
next
  case (Suc n)
  from Suc.prems(1) have nf: "\<not> do_finished m" by (simp split: if_splits)
  with Suc.prems(1) obtain m1 where s: "do_step pop m = Inr m1" and r: "rounds pop n m1 = Some m'"
    by (auto split: sum.splits)
  have "step m1 \<noteq> 1"
  proof (cases "step m = 1")
    case True
    with s have "do_step_1 m = Inr m1" by (simp add: do_step_def)
    from do_step_1_step [OF this] True show ?thesis by simp
  next
    case False
    then show ?thesis using s by (rule do_step_not_first)
  qed
  with Suc.IH [OF r] show ?case by simp
qed


lemma step_2_body_in_place:
  assumes ip: "in_place m" and ne: "cleanups m \<noteq> []" and b: "step_2_body pop m = Inr m'"
  shows "in_place m'"
proof -
  let ?j = "popped pop (cleanups m)"
  let ?m1 = "m\<lparr>cleanups := removeAll ?j (cleanups m)\<rparr>"
  have ip1: "in_place ?m1" using ip by (auto simp add: in_place_iff grid_ok_def)
  show ?thesis
  proof (cases "length (items (cells m ! ?j)) = 1")
    case False
    with b have "m' = ?m1" by (simp add: step_2_body_def Let_def)
    with ip1 show ?thesis by simp
  next
    case True
    let ?c = "(cells m ! ?j)\<lparr>solved := True\<rparr>"
    let ?m2 = "?m1\<lparr>cells := (cells ?m1)[?j := ?c]\<rparr>"
    have ip2: "in_place ?m2"
    proof -
      from ip1 have g: "grid_ok ?m1"
        and rc: "\<forall>k<length (cells ?m1). row (cells ?m1 ! k) = int (k div columns ?m1)
                              \<and> column (cells ?m1 ! k) = int (k mod columns ?m1)"
        and cl: "\<forall>k\<in>set (cleanups ?m1). k < length (cells ?m1)"
        unfolding in_place_iff by blast+
      have g2: "grid_ok ?m2" using g by (simp add: grid_ok_def)
      have rc2: "\<forall>k<length (cells ?m2). row (cells ?m2 ! k) = int (k div columns ?m2)
                              \<and> column (cells ?m2 ! k) = int (k mod columns ?m2)"
      proof (intro allI impI)
        fix k assume "k < length (cells ?m2)"
        then have k: "k < length (cells ?m1)" by simp
        with rc have "row (cells ?m1 ! k) = int (k div columns ?m1)
                    \<and> column (cells ?m1 ! k) = int (k mod columns ?m1)" by blast
        then show "row (cells ?m2 ! k) = int (k div columns ?m2)
                 \<and> column (cells ?m2 ! k) = int (k mod columns ?m2)"
          using k by (cases "k = ?j") simp_all
      qed
      have cl2: "\<forall>k\<in>set (cleanups ?m2). k < length (cells ?m2)" using cl by simp
      from g2 rc2 cl2 show ?thesis unfolding in_place_iff by blast
    qed
    from True b obtain v r c where "strip_value v r c ?m2 = Inr m'"
      by (simp add: step_2_body_def Let_def)
    then have "keeps ?m2 m'" by (rule strip_value_keeps)
    with ip2 show ?thesis by (rule in_place_keeps)
  qed
qed

lemma do_step_2_loop_in_place:
  "in_place m \<Longrightarrow> do_step_2_loop pop m = Inr m' \<Longrightarrow> in_place m'"
proof (induction pop m rule: do_step_2_loop.induct)
  case (1 pop m)
  show ?case
  proof (cases "cleanups m = []")
    case True
    with "1.prems" show ?thesis by (simp add: do_step_2_loop.simps [of pop m])
  next
    case False
    with "1.prems" obtain m1 where b: "step_2_body pop m = Inr m1" and l: "do_step_2_loop pop m1 = Inr m'"
      by (auto simp add: do_step_2_loop.simps [of pop m] split: sum.splits)
    from step_2_body_in_place [OF "1.prems"(1) False b] have "in_place m1" .
    with "1.IH" [OF False b] l show ?thesis by simp
  qed
qed

lemma cell_reset_no_kw_place:
  "cell_reset no_kw c = Inr c' \<Longrightarrow> row c' = row c \<and> column c' = column c"
  by (auto simp add: cell_reset_def cell_set_answer_def cell_set_values_def no_kw_def Let_def
      split: if_splits)

lemma in_place_reset_cell:
  assumes "in_place m" "reset_cell i m = Inr m'"
  shows "in_place m'"
proof -
  from assms(2) obtain c where c: "cell_reset no_kw (cells m ! i) = Inr c"
    and m': "m' = m\<lparr>cells := (cells m)[i := c]\<rparr>"
    by (auto simp add: reset_cell_def split: sum.splits)
  note p = cell_reset_no_kw_place [OF c]
  from assms(1) have g: "grid_ok m"
    and rc: "\<forall>k<length (cells m). row (cells m ! k) = int (k div columns m)
                              \<and> column (cells m ! k) = int (k mod columns m)"
    and cl: "\<forall>k\<in>set (cleanups m). k < length (cells m)"
    unfolding in_place_iff by blast+
  have g2: "grid_ok m'" using g by (simp add: grid_ok_def m')
  have rc2: "\<forall>k<length (cells m'). row (cells m' ! k) = int (k div columns m')
                              \<and> column (cells m' ! k) = int (k mod columns m')"
  proof (intro allI impI)
    fix k assume "k < length (cells m')"
    then have k: "k < length (cells m)" by (simp add: m')
    with rc have "row (cells m ! k) = int (k div columns m)
                    \<and> column (cells m ! k) = int (k mod columns m)" by blast
    then show "row (cells m' ! k) = int (k div columns m')
                 \<and> column (cells m' ! k) = int (k mod columns m')"
      using k p by (cases "k = i") (simp_all add: m')
  qed
  have cl2: "\<forall>k\<in>set (cleanups m'). k < length (cells m')" using cl by (simp add: m')
  from g2 rc2 cl2 show ?thesis unfolding in_place_iff by blast
qed

lemma in_place_register:
  assumes "in_place m" "i < length (cells m)"
  shows "in_place (register_for_cleanups i m)"
  using assms by (auto simp add: in_place_iff grid_ok_def register_for_cleanups_def)

lemma in_place_step_1_each:
  "in_place m \<Longrightarrow> \<forall>j\<in>set js. j < length (cells m) \<Longrightarrow> step_1_each js m = Inr m' \<Longrightarrow> in_place m'"
proof (induction js arbitrary: m)
  case Nil
  then show ?case by simp
next
  case (Cons i js)
  show ?case
  proof (cases "length (items (cells m ! i)) \<noteq> 1")
    case True
    with Cons.prems obtain m1 where r: "reset_cell i m = Inr m1" and e: "step_1_each js m1 = Inr m'"
      by (auto split: sum.splits)
    have "length (cells m1) = length (cells m)"
      using r by (auto simp add: reset_cell_def split: sum.splits)
    with Cons.prems(2) have v: "\<forall>j\<in>set js. j < length (cells m1)" by simp
    from Cons.IH [OF in_place_reset_cell [OF Cons.prems(1) r] v e] show ?thesis .
  next
    case False
    show ?thesis
    proof (cases "solved (cells m ! i)")
      case True
      with False Cons.prems have "step_1_each js m = Inr m'" by simp
      moreover from Cons.prems(2) have "\<forall>j\<in>set js. j < length (cells m)" by simp
      ultimately show ?thesis using Cons.prems(1) by (intro Cons.IH [of m])
    next
      case unsolved: False
      with False Cons.prems have e: "step_1_each js (register_for_cleanups i m) = Inr m'" by simp
      have 1: "in_place (register_for_cleanups i m)" using Cons.prems by (intro in_place_register) simp_all
      have 2: "\<forall>j\<in>set js. j < length (cells (register_for_cleanups i m))"
        using Cons.prems(2) by (simp add: register_for_cleanups_def)
      from Cons.IH [OF 1 2 e] show ?thesis .
    qed
  qed
qed

lemma in_place_do_step:
  assumes "in_place m" "do_step pop m = Inr m'"
  shows "in_place m'"
proof -
  consider (one) "step m = 1" | (two) "step m = 2" | (three) "step m = 3"
    using assms by (auto simp add: do_step_def split: if_splits)
  then show ?thesis
  proof cases
    case one
    with assms obtain m1 where e: "step_1_each (ids m) m = Inr m1" and m': "m' = m1\<lparr>step := step m1 + 1\<rparr>"
      by (auto simp add: do_step_def do_step_1_def split: sum.splits)
    have "\<forall>j\<in>set (ids m). j < length (cells m)" by (simp add: ids_def)
    from in_place_step_1_each [OF assms(1) this e] show ?thesis by (simp add: m')
  next
    case two
    with assms obtain m2 where l: "do_step_2_loop pop m = Inr m2" and m': "m' = m2\<lparr>step := step m2 + 1\<rparr>"
      by (auto simp add: do_step_def do_step_2_def split: sum.splits)
    from do_step_2_loop_in_place [OF assms(1) l] show ?thesis by (simp add: m')
  next
    case three
    with assms have "do_step_3 m = Inr m'" by (simp add: do_step_def)
    with assms(1) show ?thesis by (rule in_place_do_step_3)
  qed
qed

lemma in_place_rounds:
  "in_place m \<Longrightarrow> rounds pop n m = Some m' \<Longrightarrow> in_place m'"
proof (induction n arbitrary: m)
  case 0
  then show ?case by simp
next
  case (Suc n)
  from Suc.prems(2) have nf: "\<not> do_finished m" by (simp split: if_splits)
  with Suc.prems(2) obtain m1 where s: "do_step pop m = Inr m1" and r: "rounds pop n m1 = Some m'"
    by (auto split: sum.splits)
  from in_place_do_step [OF Suc.prems(1) s] r show ?case by (rule Suc.IH)
qed

lemma new_matrix_clash4: "new_matrix SudokuMatrixSolver kw_clash4 = Inr clash4"
  by code_simp

lemma in_place_clash4: "in_place clash4"
  by code_simp

lemma rounds_clash4: "rounds pop_first 2 (clash4\<lparr>step := 1\<rparr>) = Some stuck4"
  by code_simp

lemma stuck_stuck4: "stuck stuck4 0"
  by code_simp

lemma solve_clash4: "solve pop_first clash4 = FailedSolving AttributeError"
  by code_simp


section \<open>Properties of cells\<close>

text \<open>
  C7.  A cell whose \<open>solved\<close> flag is set is left as it is by \<open>set_value\<close>, \<open>set_values\<close> and
  \<open>strip_value\<close>, whatever the argument (also a value outside the base sequence: no error
  is raised), and no hook is called.
\<close>

theorem solved_cell_immutable:
  assumes "solved c"
  shows "cell_set_value v c = Inr (c, False)
       \<and> cell_set_values vs c = (c, False)
       \<and> cell_strip_value v c = (c, False)"
  using assms by (simp add: cell_set_value_def cell_set_values_def cell_strip_value_def)

theorem solved_cell_immutable_witness:
  "solved (fresh9\<lparr>solved := True, items := [PInt 4]\<rparr>)
   \<and> cell_set_value (Item (PInt 7)) (fresh9\<lparr>solved := True, items := [PInt 4]\<rparr>)
       = Inr (fresh9\<lparr>solved := True, items := [PInt 4]\<rparr>, False)
   \<and> items (fst (cell_set_values [PInt 1, PInt 2] (fresh9\<lparr>solved := True, items := [PInt 4]\<rparr>)))
       = [PInt 4]
   \<and> items (fst (cell_strip_value (Item (PInt 4)) (fresh9\<lparr>solved := True, items := [PInt 4]\<rparr>)))
       = [PInt 4]"
proof -
  have s: "solved (fresh9\<lparr>solved := True, items := [PInt 4]\<rparr>)" by simp
  show ?thesis
    using s solved_cell_immutable [OF s, of "Item (PInt 7)" "[PInt 1, PInt 2]"]
      solved_cell_immutable [OF s, of "Item (PInt 4)" "[]"] by simp
qed

text \<open>
  C8.  \<open>get_value\<close> is \<open>len(self) == 1 and self[0] or self\<close>: it returns the unique item only
  when that item is true in Python's sense.  For a cell whose only item is \<open>0\<close>, the empty
  string or \<open>None\<close> it returns the cell itself, as it does for a cell with several items.
\<close>

theorem get_value_falsy_item:
  "cell_get_value (fresh9\<lparr>base_sequence := map PInt [0..8], items := [PInt 0]\<rparr>) = Seq [PInt 0]
   \<and> cell_get_value (fresh9\<lparr>items := [PNone]\<rparr>) = Seq [PNone]"
  by (simp add: cell_get_value_def)

lemma get_value_cases:
  "cell_get_value c =
     (if length (items c) = 1 then (if truthy (hd (items c)) then Item (hd (items c)) else Seq (items c))
      else Seq (items c))"
  by (cases "items c") (simp_all add: cell_get_value_def)

text \<open>
  C10.  \<open>reset()\<close>, called without keywords on a cell whose answer is \<open>None\<close> or an item of
  its base sequence (so that the answer's setter accepts it again), clears \<open>solved\<close> and
  makes the cell's items the whole base sequence, whether \<open>solved\<close> was set or not.
\<close>

theorem reset_ignores_solved:
  assumes "answer c = PNone \<or> answer c \<in> set (base_sequence c)"
  shows "\<exists>c'. cell_reset no_kw c = Inr c' \<and> \<not> solved c' \<and> items c' = base_sequence c
           \<and> base_sequence c' = base_sequence c"
  using assms by (auto simp add: cell_reset_def cell_set_answer_def no_kw_def cell_set_values_def Let_def)

theorem reset_ignores_solved_witness:
  "(answer (fresh9\<lparr>solved := True, items := [PInt 4]\<rparr>) = PNone
    \<or> answer (fresh9\<lparr>solved := True, items := [PInt 4]\<rparr>)
         \<in> set (base_sequence (fresh9\<lparr>solved := True, items := [PInt 4]\<rparr>)))
   \<and> (\<exists>c'. cell_reset no_kw (fresh9\<lparr>solved := True, items := [PInt 4]\<rparr>) = Inr c' \<and> \<not> solved c'
          \<and> items c' = map PInt [1..9])"
proof -
  have a: "answer (fresh9\<lparr>solved := True, items := [PInt 4]\<rparr>) = PNone
    \<or> answer (fresh9\<lparr>solved := True, items := [PInt 4]\<rparr>)
         \<in> set (base_sequence (fresh9\<lparr>solved := True, items := [PInt 4]\<rparr>))"
    by (simp add: fresh9_def)
  from reset_ignores_solved [OF a] obtain c' where
    "cell_reset no_kw (fresh9\<lparr>solved := True, items := [PInt 4]\<rparr>) = Inr c'" "\<not> solved c'"
    "items c' = base_sequence (fresh9\<lparr>solved := True, items := [PInt 4]\<rparr>)"
    by blast
  then have "cell_reset no_kw (fresh9\<lparr>solved := True, items := [PInt 4]\<rparr>) = Inr c' \<and> \<not> solved c'
          \<and> items c' = map PInt [1..9]"
    by (simp add: fresh9_def)
  with a show ?thesis by blast
qed

lemma reset_rejects_foreign_answer:
  "cell_reset no_kw (fresh9\<lparr>answer := PInt 5, base_sequence := [PStr ''a'', PStr ''b'', PStr ''c'', PStr ''d'']\<rparr>)
     = Inl SudokuMatrixError"
  by (simp add: cell_reset_def cell_set_answer_def no_kw_def fresh9_def)

text \<open>
  C4.  The claim as stated: every mutation of an unsolved cell that takes the number of
  items to one calls the hook.  \<open>set_values\<close> never calls it, and \<open>set_value(None)\<close> does not
  either.
\<close>

theorem hook_not_fired_counterexample:
  "\<not> (\<forall>m c c' fired. \<not> solved c \<and> mutate m c = Inr (c', fired) \<and> length (items c) \<noteq> 1
        \<and> length (items c') = 1 \<longrightarrow> fired)"
proof
  assume h: "\<forall>m c c' fired. \<not> solved c \<and> mutate m c = Inr (c', fired) \<and> length (items c) \<noteq> 1
        \<and> length (items c') = 1 \<longrightarrow> fired"
  have "\<not> solved fresh9 \<and> mutate (SetValues [PInt 5]) fresh9 = Inr (fresh9\<lparr>items := [PInt 5]\<rparr>, False)
        \<and> length (items fresh9) \<noteq> 1 \<and> length (items (fresh9\<lparr>items := [PInt 5]\<rparr>)) = 1"
    by (simp add: fresh9_def cell_set_values_def)
  with h have False by blast
  then show False .
qed

text \<open>
  C4, amended.  When a mutation takes an unsolved cell from another number of items to
  exactly one, the hook is called if the mutation is \<open>strip_value\<close> or \<open>set_value\<close> of a value
  other than \<open>None\<close>, and is not called if it is \<open>set_values\<close> or \<open>set_value(None)\<close>.
\<close>

theorem hook_fired_on_transition:
  assumes "\<not> solved c" and "mutate m c = Inr (c', fired)"
    and "length (items c) \<noteq> 1" and "length (items c') = 1"
  shows "fired = (case m of SetValue v \<Rightarrow> v \<noteq> Item PNone | SetValues vs \<Rightarrow> False | StripValue v \<Rightarrow> True)"
proof (cases m)
  case (SetValue v)
  with assms show ?thesis
    by (auto simp add: cell_set_value_def split: if_splits pyobj.splits)
next
  case (SetValues vs)
  with assms show ?thesis
    by (auto simp add: cell_set_values_def split: if_splits)
next
  case (StripValue v)
  with assms show ?thesis
    by (auto simp add: cell_strip_value_def split: if_splits pyobj.splits)
qed

theorem hook_fired_on_transition_witness:
  "\<not> solved (fresh9\<lparr>items := [PInt 2, PInt 6]\<rparr>)
   \<and> mutate (StripValue (Item (PInt 2))) (fresh9\<lparr>items := [PInt 2, PInt 6]\<rparr>)
       = Inr (fresh9\<lparr>items := [PInt 6]\<rparr>, True)
   \<and> length (items (fresh9\<lparr>items := [PInt 2, PInt 6]\<rparr>)) \<noteq> 1
   \<and> length (items (fresh9\<lparr>items := [PInt 6]\<rparr>)) = 1
   \<and> True = (case StripValue (Item (PInt 2)) of SetValue v \<Rightarrow> v \<noteq> Item PNone | SetValues vs \<Rightarrow> False
               | StripValue v \<Rightarrow> True)"
proof -
  have 1: "\<not> solved (fresh9\<lparr>items := [PInt 2, PInt 6]\<rparr>)" by (simp add: fresh9_def)
  have 2: "mutate (StripValue (Item (PInt 2))) (fresh9\<lparr>items := [PInt 2, PInt 6]\<rparr>)
       = Inr (fresh9\<lparr>items := [PInt 6]\<rparr>, True)"
    by (simp add: fresh9_def cell_strip_value_def)
  have 3: "length (items (fresh9\<lparr>items := [PInt 2, PInt 6]\<rparr>)) \<noteq> 1" by simp
  have 4: "length (items (fresh9\<lparr>items := [PInt 6]\<rparr>)) = 1" by simp
  from hook_fired_on_transition [OF 1 2 3 4] 1 2 3 4 show ?thesis by simp
qed

section \<open>Properties of step 3\<close>

subsection \<open>No cell gains an item in step 3\<close>











subsection \<open>Step 3 raises no exception on a grid whose cells are in place\<close>








subsection \<open>Cells that step 3 passes over\<close>








subsection \<open>The order of a stable sort\<close>



subsection \<open>A cell that holds a pair, and the other cells of its units\<close>











section \<open>The unit of a cell\<close>

lemma unit_has_cell: "c < n \<Longrightarrow> (r, c) \<in> unit_pairs n b r c"
  by (simp add: unit_pairs_def)

lemma length_removeAll_member:
  "distinct u \<Longrightarrow> x \<in> set u \<Longrightarrow> length (removeAll x u) = length u - 1"
  by (simp add: distinct_remove1_removeAll [symmetric] length_remove1)

text \<open>
  C6, amended.  In a well-formed \<open>N\<close> x \<open>N\<close> grid with box size \<open>b\<close>, \<open>get_unit_cells\<close> of a
  location in bounds is a collection of exactly \<open>3 * N - 2 * b\<close> distinct cells: the cells of
  the row, of the column and of the box of the location, the cell of the location itself
  included, so that it has \<open>3 * N - 2 * b - 1\<close> cells besides that cell.
\<close>

theorem unit_cells_count:
  assumes "grid_ok m" "r < rows m" "c < columns m"
  shows "\<exists>u rw cl bx. get_unit_cells m (int r) (int c) = Inr u \<and> distinct u
           \<and> length u = 3 * columns m - 2 * box_size m
           \<and> get_row_cells m (int r) = Inr rw \<and> get_column_cells m (int c) = Inr cl
           \<and> get_box_cells m (int r) (int c) = Inr bx
           \<and> set u = set rw \<union> set cl \<union> set bx
           \<and> set u = pos (columns m) ` unit_pairs (columns m) (box_size m) r c
           \<and> at m (int r) (int c) = Inr (r * columns m + c)
           \<and> r * columns m + c \<in> set u
           \<and> length (removeAll (r * columns m + c) u) = 3 * columns m - 2 * box_size m - 1"
proof -
  let ?n = "columns m" and ?b = "box_size m"
  from unit_cells_length [OF assms] obtain u where
    u: "get_unit_cells m (int r) (int c) = Inr u" and d: "distinct u"
    and l: "length u = 3 * ?n - 2 * ?b" by blast
  from get_unit_cells_ok [OF assms] u have s: "set u = pos ?n ` unit_pairs ?n ?b r c" by simp
  obtain rw cl bx where rw: "get_row_cells m (int r) = Inr rw"
    and cl: "get_column_cells m (int c) = Inr cl"
    and bx: "get_box_cells m (int r) (int c) = Inr bx"
    using get_row_cells_ok [OF assms(1,2)] get_column_cells_ok [OF assms(1,3)]
      get_box_cells_ok [OF assms] by blast
  from u rw cl bx have un: "set u = set rw \<union> set cl \<union> set bx"
    by (auto simp add: get_unit_cells_def)
  have "pos ?n (r, c) \<in> pos ?n ` unit_pairs ?n ?b r c"
    using unit_has_cell [OF assms(3)] by (rule imageI)
  with s have t: "r * ?n + c \<in> set u" by (simp add: pos_def)
  from d t l have "length (removeAll (r * ?n + c) u) = 3 * ?n - 2 * ?b - 1"
    by (simp add: length_removeAll_member)
  with u d l rw cl bx un s t at_ok [OF assms] show ?thesis by blast
qed

theorem unit_cells_count_witness:
  "grid_ok (grid4 SudokuMatrix) \<and> (1::nat) < rows (grid4 SudokuMatrix) \<and> (2::nat) < columns (grid4 SudokuMatrix)
   \<and> (\<exists>u rw cl bx. get_unit_cells (grid4 SudokuMatrix) 1 2 = Inr u \<and> distinct u \<and> length u = 8
          \<and> get_row_cells (grid4 SudokuMatrix) 1 = Inr rw
          \<and> get_column_cells (grid4 SudokuMatrix) 2 = Inr cl
          \<and> get_box_cells (grid4 SudokuMatrix) 1 2 = Inr bx
          \<and> set u = set rw \<union> set cl \<union> set bx
          \<and> set u = pos 4 ` unit_pairs 4 2 1 2
          \<and> at (grid4 SudokuMatrix) 1 2 = Inr 6
          \<and> 6 \<in> set u \<and> length (removeAll 6 u) = 7)"
proof -
  have 1: "grid_ok (grid4 SudokuMatrix)" by (rule grid4_ok)
  have 2: "(1::nat) < rows (grid4 SudokuMatrix)" by (simp add: grid4_def)
  have 3: "(2::nat) < columns (grid4 SudokuMatrix)" by (simp add: grid4_def)
  have 4: "columns (grid4 SudokuMatrix) = 4" "box_size (grid4 SudokuMatrix) = 2"
    by (simp_all add: grid4_def)
  from unit_cells_count [OF 1 2 3]
  have "\<exists>u rw cl bx. get_unit_cells (grid4 SudokuMatrix) 1 2 = Inr u \<and> distinct u \<and> length u = 8
          \<and> get_row_cells (grid4 SudokuMatrix) 1 = Inr rw
          \<and> get_column_cells (grid4 SudokuMatrix) 2 = Inr cl
          \<and> get_box_cells (grid4 SudokuMatrix) 1 2 = Inr bx
          \<and> set u = set rw \<union> set cl \<union> set bx
          \<and> set u = pos 4 ` unit_pairs 4 2 1 2
          \<and> at (grid4 SudokuMatrix) 1 2 = Inr 6
          \<and> 6 \<in> set u \<and> length (removeAll 6 u) = 7"
    by (simp add: 4)
  with 1 2 3 show ?thesis by blast
qed

text \<open>
  C6 as stated (\<open>3 * N - 2 * b - 1\<close> cells) fails: the unit of the corner of the 4 x 4 grid
  has 8 cells, not 7.
\<close>

theorem unit_cells_count_counterexample:
  "\<not> (\<exists>u. get_unit_cells (grid4 SudokuMatrix) 0 0 = Inr u
         \<and> length u = 3 * columns (grid4 SudokuMatrix) - 2 * box_size (grid4 SudokuMatrix) - 1)"
  by (simp add: get_unit_cells_grid4_00) (simp add: grid4_def)

section \<open>Committing a value\<close>

text \<open>
  C1, amended.  In a well-formed grid, for a location in bounds and a value \<open>v\<close> of the
  target cell's base sequence, \<open>strip_value(v, r, c)\<close> returns normally, and afterwards: the
  target cell, unless it is solved, holds exactly \<open>[v]\<close> (and \<open>get_value\<close> is \<open>v\<close> when \<open>v\<close> is
  true in Python's sense); every other cell of the unit that is not solved and whose items
  are distinct no longer holds \<open>v\<close>; every solved cell is unchanged.
\<close>

theorem strip_value_commits:
  assumes "grid_ok m" "r < rows m" "c < columns m"
    and "v \<in> set (base_sequence (cells m ! (r * columns m + c)))"
  shows "\<exists>m' u. strip_value (Item v) (int r) (int c) m = Inr m'
           \<and> get_unit_cells m (int r) (int c) = Inr u
           \<and> length (cells m') = length (cells m)
           \<and> (\<not> solved (cells m ! (r * columns m + c)) \<longrightarrow>
                 items (cells m' ! (r * columns m + c)) = [v]
                 \<and> (truthy v \<longrightarrow> cell_get_value (cells m' ! (r * columns m + c)) = Item v))
           \<and> (\<forall>j\<in>set u. j \<noteq> r * columns m + c \<and> \<not> solved (cells m ! j) \<and> distinct (items (cells m ! j))
                 \<longrightarrow> v \<notin> set (items (cells m' ! j)))
           \<and> (\<forall>j<length (cells m). solved (cells m ! j) \<longrightarrow> cells m' ! j = cells m ! j)"
proof -
  let ?t = "r * columns m + c"
  from get_unit_cells_ok [OF assms(1-3)] obtain u where u: "get_unit_cells m (int r) (int c) = Inr u"
    and d: "distinct u" by blast
  have val: "\<forall>i\<in>set u. i < length (cells m)" using u by (blast dest: get_unit_cells_valid)
  let ?m1 = "fold (strip_cell (Item v)) u m"
  have k1: "keeps m ?m1" using val by (intro shrinks_keeps fold_strip_cell_shrinks)
  have nth1: "cells ?m1 ! j = (if j \<in> set u then fst (cell_strip_value (Item v) (cells m ! j)) else cells m ! j)"
    if "j < length (cells m)" for j using d val that by (rule fold_strip_cell_nth)
  have len1: "length (cells ?m1) = length (cells m)" using k1 by (rule keeps_length)
  have g1: "grid_ok ?m1" using k1 assms(1) by (rule keeps_grid_ok)
  from keeps_fields [OF k1] assms have "r < rows ?m1" "c < columns ?m1" and cols: "columns ?m1 = columns m"
    by simp_all
  with g1 have at1: "at ?m1 (int r) (int c) = Inr ?t" by (simp add: at_ok)
  have t: "?t < length (cells m)" using at_valid [OF at1] len1 by simp
  let ?ct = "cells ?m1 ! ?t"
  have ct_solved: "solved ?ct = solved (cells m ! ?t)" and ct_bs: "base_sequence ?ct = base_sequence (cells m ! ?t)"
    using nth1 [OF t] by (simp_all add: cell_strip_value_attrs)
  have "\<exists>c' f. cell_set_value (Item v) ?ct = Inr (c', f)
          \<and> c' = (if solved (cells m ! ?t) then cells m ! ?t else ?ct\<lparr>items := [v]\<rparr>)"
  proof (cases "solved (cells m ! ?t)")
    case True
    with nth1 [OF t] have "?ct = cells m ! ?t" by (simp add: cell_strip_value_solved)
    with True cell_set_value_solved [of ?ct "Item v"] ct_solved
    have "cell_set_value (Item v) ?ct = Inr (cells m ! ?t, False)" by simp
    with True show ?thesis by auto
  next
    case False
    with ct_solved ct_bs assms(4) cell_set_value_member [of ?ct v] show ?thesis by auto
  qed
  then obtain c' f where sv: "cell_set_value (Item v) ?ct = Inr (c', f)"
    and c': "c' = (if solved (cells m ! ?t) then cells m ! ?t else ?ct\<lparr>items := [v]\<rparr>)" by blast
  let ?m' = "store ?t (c', f) ?m1"
  have res: "strip_value (Item v) (int r) (int c) m = Inr ?m'"
    using u at1 sv by (simp add: strip_value_def set_cell_value_def)
  have cells': "cells ?m' = (cells ?m1)[?t := c']" by simp
  have a: "length (cells ?m') = length (cells m)" using len1 by simp
  have b: "\<not> solved (cells m ! ?t) \<longrightarrow> items (cells ?m' ! ?t) = [v]
       \<and> (truthy v \<longrightarrow> cell_get_value (cells ?m' ! ?t) = Item v)"
    using t len1 c' by (simp add: get_value_single)
  have cc: "\<forall>j\<in>set u. j \<noteq> ?t \<and> \<not> solved (cells m ! j) \<and> distinct (items (cells m ! j))
       \<longrightarrow> v \<notin> set (items (cells ?m' ! j))"
  proof (intro ballI impI)
    fix j assume j: "j \<in> set u" and h: "j \<noteq> ?t \<and> \<not> solved (cells m ! j) \<and> distinct (items (cells m ! j))"
    from j val have jl: "j < length (cells m)" by simp
    from h have "cells ?m' ! j = cells ?m1 ! j" by simp
    also have "\<dots> = fst (cell_strip_value (Item v) (cells m ! j))" using nth1 [OF jl] j by simp
    finally show "v \<notin> set (items (cells ?m' ! j))" using h by (simp add: cell_strip_value_absent)
  qed
  have e: "\<forall>j<length (cells m). solved (cells m ! j) \<longrightarrow> cells ?m' ! j = cells m ! j"
  proof (intro allI impI)
    fix j assume jl: "j < length (cells m)" and s: "solved (cells m ! j)"
    have 1: "cells ?m1 ! j = cells m ! j" using nth1 [OF jl] s by (simp add: cell_strip_value_solved)
    show "cells ?m' ! j = cells m ! j"
    proof (cases "j = ?t")
      case True
      with s c' jl len1 show ?thesis by simp
    next
      case False
      with 1 show ?thesis by simp
    qed
  qed
  from res u a b cc e show ?thesis by blast
qed

theorem strip_value_commits_witness:
  "grid_ok (grid4 SudokuMatrixSolver) \<and> (0::nat) < rows (grid4 SudokuMatrixSolver)
   \<and> (1::nat) < columns (grid4 SudokuMatrixSolver)
   \<and> PInt 3 \<in> set (base_sequence (cells (grid4 SudokuMatrixSolver) ! 1))
   \<and> (\<exists>m'. strip_value (Item (PInt 3)) 0 1 (grid4 SudokuMatrixSolver) = Inr m'
         \<and> items (cells m' ! 1) = [PInt 3]
         \<and> cell_get_value (cells m' ! 1) = Item (PInt 3)
         \<and> PInt 3 \<notin> set (items (cells m' ! 0)))"
proof -
  let ?g = "grid4 SudokuMatrixSolver"
  have 1: "grid_ok ?g" by (rule grid4_ok)
  have 2: "(0::nat) < rows ?g" by (simp add: grid4_def)
  have 3: "(1::nat) < columns ?g" by (simp add: grid4_def)
  have 4: "PInt 3 \<in> set (base_sequence (cells ?g ! (0 * columns ?g + 1)))"
    by (simp add: grid4_cells cell4_def)
  from strip_value_commits [OF 1 2 3 4] obtain m' u where
    r: "strip_value (Item (PInt 3)) (int 0) (int 1) ?g = Inr m'"
    and u: "get_unit_cells ?g (int 0) (int 1) = Inr u"
    and t: "\<not> solved (cells ?g ! (0 * columns ?g + 1)) \<longrightarrow>
                 items (cells m' ! (0 * columns ?g + 1)) = [PInt 3]
                 \<and> (truthy (PInt 3) \<longrightarrow> cell_get_value (cells m' ! (0 * columns ?g + 1)) = Item (PInt 3))"
    and o: "\<forall>j\<in>set u. j \<noteq> 0 * columns ?g + 1 \<and> \<not> solved (cells ?g ! j) \<and> distinct (items (cells ?g ! j))
                 \<longrightarrow> PInt 3 \<notin> set (items (cells m' ! j))"
    by blast
  from u have u': "u = [2, 3, 9, 13, 0, 1, 4, 5]" by (simp add: get_unit_cells_grid4_01)
  from t have "items (cells m' ! 1) = [PInt 3] \<and> cell_get_value (cells m' ! 1) = Item (PInt 3)"
    by (simp add: grid4_cells cell4_def)
  moreover from o u' have "PInt 3 \<notin> set (items (cells m' ! 0))"
    by (simp add: grid4_cells cell4_def upto_1_4)
  moreover from r have "strip_value (Item (PInt 3)) 0 1 ?g = Inr m'" by simp
  moreover from 4 have "PInt 3 \<in> set (base_sequence (cells ?g ! 1))" by simp
  ultimately show ?thesis using 1 2 3 by blast
qed

text \<open>
  C1 as stated fails where a cell of the unit is solved: with the cell at (0, 0) solved as 2
  and the cell at (0, 1) solved as 1, \<open>strip_value(1, 0, 0)\<close> leaves both as they are.
\<close>

theorem strip_value_commits_counterexample:
  "\<exists>m'. strip_value (Item (PInt 1)) 0 0 locked4 = Inr m'
        \<and> get_unit_cells locked4 0 0 = Inr [2, 3, 8, 12, 0, 1, 4, 5]
        \<and> at locked4 0 0 = Inr 0
        \<and> cell_get_value (cells m' ! 0) = Item (PInt 2)
        \<and> PInt 1 \<in> set (items (cells m' ! 1))"
proof -
  define m1 where "m1 = fold (strip_cell (Item (PInt 1))) [2, 3, 8, 12, 0, 1, 4, 5] locked4"
  have u: "get_unit_cells locked4 0 0 = Inr [2, 3, 8, 12, 0, 1, 4, 5]"
    by (simp add: locked4_def get_unit_cells_grid4_00)
  have a: "at locked4 0 0 = Inr 0" by (simp add: locked4_def at_grid4_00)
  have k: "keeps locked4 m1" unfolding m1_def
    by (intro shrinks_keeps fold_strip_cell_shrinks) (simp add: locked4_def with_cell_def grid4_def)
  have a1: "at m1 0 0 = Inr 0" using keeps_at [OF k] a by simp
  have n: "cells m1 ! j = (if j \<in> set [2, 3, 8, 12, 0, 1, 4, 5]
             then fst (cell_strip_value (Item (PInt 1)) (cells locked4 ! j)) else cells locked4 ! j)"
    if "j < length (cells locked4)" for j
    unfolding m1_def
    using that by (intro fold_strip_cell_nth) (simp_all add: locked4_def with_cell_def grid4_def)
  have c0: "cells m1 ! 0 = (cell4 SudokuMatrixCell 0 0)\<lparr>items := [PInt 2], solved := True\<rparr>"
    using n [of 0] by (simp add: locked4_def with_cell_def grid4_cells cell_strip_value_def cell_class_of_def)
  have c1: "cells m1 ! 1 = (cell4 SudokuMatrixCell 0 1)\<lparr>items := [PInt 1], solved := True\<rparr>"
    using n [of 1] by (simp add: locked4_def with_cell_def grid4_cells cell_strip_value_def cell_class_of_def)
  have l: "length (cells m1) = 16"
    using keeps_length [OF k] by (simp add: locked4_def with_cell_def grid4_cells)
  have sv: "set_cell_value (Item (PInt 1)) 0 m1 = Inr (store 0 (cells m1 ! 0, False) m1)"
    by (simp add: set_cell_value_def c0 cell_set_value_def)
  have r: "strip_value (Item (PInt 1)) 0 0 locked4 = Inr (store 0 (cells m1 ! 0, False) m1)"
    unfolding strip_value_def u by (simp only: sum.case Let_def m1_def [symmetric] a1 sv)
  have "cell_get_value (cells (store 0 (cells m1 ! 0, False) m1) ! 0) = Item (PInt 2)"
    using l by (simp add: c0 cell_get_value_def)
  moreover have "PInt 1 \<in> set (items (cells (store 0 (cells m1 ! 0, False) m1) ! 1))"
    using l c1 by simp
  ultimately show ?thesis using r u a by blast
qed

section \<open>Constructing a grid: the claim\<close>

text \<open>
  C9, amended.  The constructor works with the base sequence it is given or, when that is
  absent or empty, with the default 1..9.  If the length of that sequence is a perfect
  square \<open>b * b\<close>, and the initial values and answers are \<open>None\<close> or items of it, construction
  succeeds and gives a well-formed grid with box size \<open>b\<close>; if the length is no perfect
  square, construction fails with \<open>SudokuMatrixError\<close>.
\<close>

theorem construction_outcome:
  "(length (effective_base_sequence kw) = b * b \<and> valid_kw kw \<longrightarrow>
      (\<exists>m. new_matrix k kw = Inr m \<and> grid_ok m \<and> mclass m = k \<and> rows m = b * b
          \<and> columns m = b * b \<and> box_size m = b
          \<and> matrix_base_sequence m = effective_base_sequence kw))
   \<and> (\<not> (\<exists>b. b * b = length (effective_base_sequence kw)) \<longrightarrow>
        new_matrix k kw = Inl SudokuMatrixError)"
  using new_matrix_square [of kw b k] new_matrix_not_square [of kw k] by blast

theorem construction_outcome_witness:
  "length (effective_base_sequence kw4) = 2 * 2 \<and> valid_kw kw4
   \<and> (\<exists>m. new_matrix SudokuMatrix kw4 = Inr m \<and> grid_ok m \<and> rows m = 4 \<and> box_size m = 2)
   \<and> \<not> (\<exists>b. b * b = length (effective_base_sequence kw5))
   \<and> new_matrix SudokuMatrix kw5 = Inl SudokuMatrixError"
proof -
  have 1: "length (effective_base_sequence kw4) = 2 * 2" by (simp add: effective_kw4)
  have 2: "valid_kw kw4" by (simp add: valid_kw_def kw4_def given_def)
  have 3: "\<not> (\<exists>b. b * b = length (effective_base_sequence kw5))"
    by (rule kw5_not_square)
  from construction_outcome [of kw4 2 SudokuMatrix] 1 2
  have "\<exists>m. new_matrix SudokuMatrix kw4 = Inr m \<and> grid_ok m \<and> rows m = 4 \<and> box_size m = 2"
    by auto
  moreover from construction_outcome [of kw5 0 SudokuMatrix] 3
  have "new_matrix SudokuMatrix kw5 = Inl SudokuMatrixError" by blast
  ultimately show ?thesis using 1 2 3 by blast
qed

text \<open>
  C9 as stated fails for the empty alphabet: \<open>kw.get("base_sequence") or self.base_sequence\<close>
  replaces it by the default, and the 9 x 9 grid is built.
\<close>

theorem construction_empty_alphabet_counterexample:
  "\<exists>m. new_matrix SudokuMatrix kw_empty = Inr m \<and> rows m = 9 \<and> columns m = 9 \<and> box_size m = 3
       \<and> length (cells m) = 81"
proof -
  have 1: "length (effective_base_sequence kw_empty) = 3 * 3" by (simp add: effective_kw_empty)
  have 2: "valid_kw kw_empty" by (simp add: valid_kw_def kw_empty_def given_def)
  from new_matrix_square [OF 1 2, of SudokuMatrix] show ?thesis
    by (auto simp add: grid_ok_def)
qed

section \<open>The step after subset elimination\<close>

text \<open>
  C2.  The code does not do what the claim says.  After the subset-elimination step (step 3)
  with a set of cleanups that is not empty the solver goes back to the drain step (step 2),
  as claimed.  With no cleanups, \<open>do_step_3\<close> sets the step counter to 4, for which \<open>do_solve\<close>
  has no method: the sequence of steps does not repeat, and the loop ends at once, normally
  if every cell is solved and with \<open>AttributeError\<close> otherwise.  So the loop does not go on
  until every cell is solved, and its failure is not the \<open>SudokuMatrixError\<close> that the
  docstring of \<open>do_solve\<close> announces.  The loop never returns normally with an unsolved
  cell, and once past step 1 it never runs step 1 again.
\<close>

theorem after_step_3:
  "(step m = 3 \<and> do_step_3 m = Inr m' \<longrightarrow>
      (cleanups m' \<noteq> [] \<longrightarrow> step m' = 2 \<and> do_step pop m' = do_step_2 pop m')
      \<and> (cleanups m' = [] \<longrightarrow> step m' = 4
           \<and> do_solve_loop pop m' = (if do_finished m' then Inr m' else Inl AttributeError)))
   \<and> (do_solve_loop pop m = Inr m'' \<longrightarrow> do_finished m'')
   \<and> (step m \<noteq> 1 \<and> do_step pop m = Inr m' \<longrightarrow> step m' \<noteq> 1)"
proof -
  have 1: "step m' = 2 \<and> do_step pop m' = do_step_2 pop m'"
    if a: "step m = 3 \<and> do_step_3 m = Inr m'" and c: "cleanups m' \<noteq> []"
    using a do_step_3_step [of m m'] c by (simp add: do_step_def)
  have 2: "step m' = 4 \<and> do_solve_loop pop m' = (if do_finished m' then Inr m' else Inl AttributeError)"
    if a: "step m = 3 \<and> do_step_3 m = Inr m'" and c: "cleanups m' = []"
  proof -
    from a do_step_3_step [of m m'] c have s: "step m' = 4" by simp
    then have "do_solve_loop pop m' = (if do_finished m' then Inr m' else Inl AttributeError)"
      by (intro do_solve_loop_no_step) simp_all
    with s show ?thesis by simp
  qed
  have 3: "do_finished m''" if "do_solve_loop pop m = Inr m''"
    using that by (rule do_solve_loop_finished)
  have 4: "step m' \<noteq> 1" if "step m \<noteq> 1 \<and> do_step pop m = Inr m'"
    using that do_step_not_first by blast
  from 1 2 3 4 show ?thesis by blast
qed

theorem after_step_3_witness:
  "step propagated4 = 3 \<and> do_step_3 propagated4 = Inr (propagated4\<lparr>step := 4\<rparr>)
   \<and> cleanups (propagated4\<lparr>step := 4\<rparr>) = []
   \<and> step (propagated4\<lparr>step := 4\<rparr>) = 4
   \<and> \<not> do_finished (propagated4\<lparr>step := 4\<rparr>)
   \<and> do_solve_loop pop_first (propagated4\<lparr>step := 4\<rparr>) = Inl AttributeError"
proof -
  have 1: "step propagated4 = 3 \<and> do_step_3 propagated4 = Inr (propagated4\<lparr>step := 4\<rparr>)"
    by (simp add: propagated4_facts do_step_3_propagated4)
  have 2: "cleanups (propagated4\<lparr>step := 4\<rparr>) = []" by (simp add: propagated4_facts)
  have 3: "\<not> do_finished (propagated4\<lparr>step := 4\<rparr>)"
    using propagated4_facts(3) by (simp add: do_finished_def)
  from after_step_3 [of propagated4 "propagated4\<lparr>step := 4\<rparr>" pop_first] 1 2 3
  show ?thesis by simp
qed

text \<open>
  A failing input: the 4 x 4 puzzle whose first row is 1, 2, 3, 4, as \<open>generate\<close> seeds it.
  The steps 1 and 2 lead to a state at step 3; step 3 removes nothing there, so no cleanup
  is registered and cells remain unsolved; the step counter goes to 4, the next round
  raises \<open>AttributeError\<close> instead of running step 1 again, and \<open>solve\<close> reports the failure.
\<close>

theorem after_step_3_counterexample:
  "new_matrix SudokuMatrixSolver kw_row4 = Inr seeded4
   \<and> do_step_1 (seeded4\<lparr>step := 1\<rparr>) = Inr (seeded4\<lparr>step := 2\<rparr>)
   \<and> do_step_2 pop_first (seeded4\<lparr>step := 2\<rparr>) = Inr propagated4
   \<and> step propagated4 = 3
   \<and> do_step_3 propagated4 = Inr (propagated4\<lparr>step := 4\<rparr>)
   \<and> cleanups (propagated4\<lparr>step := 4\<rparr>) = []
   \<and> \<not> do_finished (propagated4\<lparr>step := 4\<rparr>)
   \<and> do_step pop_first (propagated4\<lparr>step := 4\<rparr>) = Inl AttributeError
   \<and> solve pop_first seeded4 = FailedSolving AttributeError"
proof -
  have "\<not> do_finished (propagated4\<lparr>step := 4\<rparr>)"
    using propagated4_facts(3) by (simp add: do_finished_def)
  moreover have "do_step pop_first (propagated4\<lparr>step := 4\<rparr>) = Inl AttributeError"
    by (simp add: do_step_def)
  ultimately show ?thesis
    by (simp add: new_matrix_seeded4 do_step_1_seeded4 do_step_2_seeded4 propagated4_facts
        do_step_3_propagated4 solve_seeded4)
qed

section \<open>A contradiction ends in a reported failure\<close>

text \<open>
  C3.  Take a grid whose cells are in place and run \<open>solve\<close> on it.  If after some round of
  the solving loop a cell that is not solved has no item left, then \<open>do_solve\<close> ends with an
  exception, and \<open>solve\<close> hands that exception to \<open>failed_solving\<close>.  (The exception is
  raised when the loop ends, not by the elimination that emptied the cell.)
\<close>

theorem contradiction_reported:
  assumes "in_place m0" and "rounds pop n (m0\<lparr>step := 1\<rparr>) = Some m" and "0 < n" and "stuck m i"
  shows "\<exists>e. do_solve pop m0 = Inl e \<and> solve pop m0 = failed_solving e"
proof -
  from assms(1) have "in_place (m0\<lparr>step := 1\<rparr>)" by simp
  then have ip: "in_place m" using assms(2) by (rule in_place_rounds)
  from assms(3) have "0 < n \<or> step (m0\<lparr>step := 1\<rparr>) \<noteq> 1" by blast
  with assms(2) have s: "step m \<noteq> 1" by (rule rounds_step)
  from do_solve_loop_stuck [OF ip assms(4) s] obtain e where "do_solve_loop pop m = Inl e" by blast
  with rounds_do_solve_loop [OF assms(2)] have "do_solve pop m0 = Inl e" by (simp add: do_solve_def)
  then show ?thesis by (simp add: solve_def)
qed

theorem contradiction_reported_witness:
  "in_place clash4 \<and> rounds pop_first 2 (clash4\<lparr>step := 1\<rparr>) = Some stuck4 \<and> (0::nat) < 2
   \<and> stuck stuck4 0
   \<and> (\<exists>e. do_solve pop_first clash4 = Inl e \<and> solve pop_first clash4 = failed_solving e)"
proof -
  have 3: "(0::nat) < 2" by simp
  from contradiction_reported [OF in_place_clash4 rounds_clash4 3 stuck_stuck4]
  show ?thesis using in_place_clash4 rounds_clash4 stuck_stuck4 by simp
qed

section \<open>Elimination by a pair\<close>







text \<open>
  The pair must also be the first that the pass meets.  In the 4 x 4 grid whose second row
  holds 1, 3 in its first two cells and 1, 2 in its last two, the pass works on the pair
  1, 3 first and strips 1 from the two other cells, which then hold the single item 2 and
  are passed over; a cell of their box still holds 1 after the pass.
\<close>

lemma earlier_pair_counterexample:
  "items (cells shadowed4 ! 6) = [PInt 1, PInt 2] \<and> items (cells shadowed4 ! 7) = [PInt 1, PInt 2]
   \<and> get_box_cells shadowed4 1 2 = Inr [2, 3, 6, 7]
   \<and> \<not> solved (cells shadowed4 ! 2) \<and> items (cells shadowed4 ! 2) = map PInt [1, 2, 3, 4]
   \<and> (\<exists>m'. do_step_3 shadowed4 = Inr m' \<and> items (cells m' ! 2) = [PInt 1, PInt 3]
          \<and> items (cells m' ! 6) = [PInt 2] \<and> items (cells m' ! 7) = [PInt 2])"
proof -
  have "case do_step_3 shadowed4 of Inl e \<Rightarrow> False
        | Inr m' \<Rightarrow> items (cells m' ! 2) = [PInt 1, PInt 3]
            \<and> items (cells m' ! 6) = [PInt 2] \<and> items (cells m' ! 7) = [PInt 2]" by code_simp
  then have "\<exists>m'. do_step_3 shadowed4 = Inr m' \<and> items (cells m' ! 2) = [PInt 1, PInt 3]
          \<and> items (cells m' ! 6) = [PInt 2] \<and> items (cells m' ! 7) = [PInt 2]"
    by (simp split: sum.splits)
  moreover have "items (cells shadowed4 ! 6) = [PInt 1, PInt 2]"
    "items (cells shadowed4 ! 7) = [PInt 1, PInt 2]"
    "get_box_cells shadowed4 1 2 = Inr [2, 3, 6, 7]"
    "\<not> solved (cells shadowed4 ! 2)" "items (cells shadowed4 ! 2) = map PInt [1, 2, 3, 4]"
    by code_simp+
  ultimately show ?thesis by blast
qed

end
